theory Spec2Isabelle
  imports Complex_Main "HOL-Library.Log_Nat" "HOL-Library.AList"
begin

section \<open>Python values and errors\<close>

text \<open>
  The development embeds \<^verbatim>\<open>src/monitoring.py\<close>: the request recorder
  \<^verbatim>\<open>ApplicationMetrics\<close> and the probe registry \<^verbatim>\<open>HealthChecker\<close>.
  Python integers are \<^typ>\<open>int\<close>. A finite Python float is the rational number it denotes
  (\<^typ>\<open>rat\<close>); the result of an arithmetic operation is a \<open>pyfloat\<close>, which may be an
  infinity. The durations a recorder stores and the readings of the probes are taken to be
  finite numbers. Every exception the recorder raises is a value of \<open>py_error\<close>; an exception
  of a probe is a class (\<open>exc_class\<close>) with a message.
\<close>

datatype py_error = ValueError | OverflowError | IndexError | ZeroDivisionError

section \<open>Double-precision arithmetic\<close>

text \<open>
  Python's \<^verbatim>\<open>float\<close> is an IEEE-754 binary64 number and every arithmetic operation rounds its
  exact result to the nearest representable number, ties to the even significand.
  \<open>round_double\<close> is that rounding on exact rationals with an unbounded exponent above (53
  significant bits, gradual underflow below \<open>2\<^sup>-\<^sup>1\<^sup>0\<^sup>2\<^sup>2\<close>); \<open>to_float\<close> then turns a
  magnitude of \<open>2\<^sup>1\<^sup>0\<^sup>2\<^sup>4\<close> or more into an infinity, as the standard prescribes.
\<close>

datatype pyfloat = Finite rat | Infinity bool | NaN

definition pow2 :: "int \<Rightarrow> rat" where
  "pow2 k = (if 0 \<le> k then 2 ^ nat k else 1 / 2 ^ nat (- k))"

definition rne :: "rat \<Rightarrow> int" where
  \<comment> \<open>round to the nearest integer, ties to the even one\<close>
  "rne x = (let f = \<lfloor>x\<rfloor>; r = x - of_int f in
     if r < 1 / 2 then f else if 1 / 2 < r then f + 1 else if even f then f else f + 1)"

definition float_exponent :: "rat \<Rightarrow> int" where
  \<comment> \<open>for \<open>x \<noteq> 0\<close>, the \<open>e\<close> with \<open>2\<^sup>e \<le> \<bar>x\<bar> < 2\<^sup>e\<^sup>+\<^sup>1\<close>\<close>
  "float_exponent x = (case quotient_of \<bar>x\<bar> of (a, b) \<Rightarrow>
     let d = bitlen a - bitlen b in if pow2 d \<le> \<bar>x\<bar> then d else d - 1)"

definition ulp :: "rat \<Rightarrow> rat" where
  \<comment> \<open>the spacing of the doubles around \<open>x\<close>\<close>
  "ulp x = pow2 (max (float_exponent x) (- 1022) - 52)"

definition round_double :: "rat \<Rightarrow> rat" where
  "round_double x = (if x = 0 then 0 else of_int (rne (x / ulp x)) * ulp x)"

definition to_float :: "rat \<Rightarrow> pyfloat" where
  "to_float y = (if 2 ^ 1024 \<le> \<bar>y\<bar> then Infinity (y < 0) else Finite y)"

definition float_of_int :: "int \<Rightarrow> py_error + rat" where
  \<comment> \<open>the conversion of an \<^verbatim>\<open>int\<close> operand in mixed arithmetic; too large an integer raises\<close>
  "float_of_int i =
     (case to_float (round_double (of_int i)) of Finite y \<Rightarrow> Inr y | _ \<Rightarrow> Inl OverflowError)"

definition int_truediv :: "int \<Rightarrow> int \<Rightarrow> py_error + rat" where
  \<comment> \<open>\<^verbatim>\<open>a / b\<close> on two \<^verbatim>\<open>int\<close>s: the correctly rounded quotient\<close>
  "int_truediv a b =
     (if b = 0 then Inl ZeroDivisionError
      else case to_float (round_double (of_int a / of_int b)) of
             Finite y \<Rightarrow> Inr y | _ \<Rightarrow> Inl OverflowError)"

definition float_mul :: "rat \<Rightarrow> rat \<Rightarrow> pyfloat" where
  "float_mul x y = to_float (round_double (x * y))"

fun float_add :: "pyfloat \<Rightarrow> pyfloat \<Rightarrow> pyfloat" where
  "float_add (Finite x) (Finite y) = to_float (round_double (x + y))"
| "float_add NaN _ = NaN"
| "float_add _ NaN = NaN"
| "float_add (Infinity s) (Infinity t) = (if s = t then Infinity s else NaN)"
| "float_add (Infinity s) (Finite y) = Infinity s"
| "float_add (Finite x) (Infinity t) = Infinity t"

fun float_div :: "pyfloat \<Rightarrow> rat \<Rightarrow> py_error + pyfloat" where
  \<comment> \<open>\<^verbatim>\<open>x / y\<close> on floats, the divisor finite\<close>
  "float_div x y =
     (if y = 0 then Inl ZeroDivisionError
      else case x of
             Finite a \<Rightarrow> Inr (to_float (round_double (a / y)))
           | Infinity s \<Rightarrow> Inr (Infinity (s \<noteq> (y < 0)))
           | NaN \<Rightarrow> Inr NaN)"

definition py_int :: "rat \<Rightarrow> int" where
  \<comment> \<open>\<^verbatim>\<open>int(x)\<close> truncates towards zero\<close>
  "py_int x = (if 0 \<le> x then \<lfloor>x\<rfloor> else \<lceil>x\<rceil>)"

definition py_sum :: "rat list \<Rightarrow> pyfloat" where
  \<comment> \<open>\<^verbatim>\<open>sum(xs)\<close> on floats: additions from the left, starting at 0. (CPython 3.12 and later
      compensates the rounding errors; the two agree whenever every partial sum is exact.)\<close>
  "py_sum xs = foldl float_add (Finite 0) (map Finite xs)"

definition py_getitem :: "'a list \<Rightarrow> int \<Rightarrow> py_error + 'a" where
  \<comment> \<open>\<^verbatim>\<open>xs[i]\<close>, where \<^verbatim>\<open>xs[-k]\<close> is the \<open>k\<close>-th element from the right end\<close>
  "py_getitem xs i =
     (if 0 \<le> i \<and> i < int (length xs) then Inr (xs ! nat i)
      else if i < 0 \<and> - int (length xs) \<le> i then Inr (xs ! nat (int (length xs) + i))
      else Inl IndexError)"

section \<open>The rolling window: \<^verbatim>\<open>collections.deque(maxlen=...)\<close>\<close>

record deque =
  maxlen :: nat
  items :: "rat list"

definition deque_new :: "int \<Rightarrow> py_error + deque" where
  \<comment> \<open>\<^verbatim>\<open>deque(maxlen=n)\<close>: a negative bound raises ValueError, one beyond \<^verbatim>\<open>sys.maxsize\<close>
      (64-bit CPython) raises OverflowError.\<close>
  "deque_new n =
     (if n < 0 then Inl ValueError
      else if 2 ^ 63 \<le> n then Inl OverflowError
      else Inr \<lparr>maxlen = nat n, items = []\<rparr>)"

definition deque_append :: "deque \<Rightarrow> rat \<Rightarrow> deque" where
  \<comment> \<open>CPython appends on the right and then pops the left end when the size exceeds maxlen.\<close>
  "deque_append d x =
     (let ys = items d @ [x]
      in d\<lparr>items := (if maxlen d < length ys then tl ys else ys)\<rparr>)"

definition deque_clear :: "deque \<Rightarrow> deque" where
  "deque_clear d = d\<lparr>items := []\<rparr>"

section \<open>ApplicationMetrics\<close>

record ApplicationMetrics =
  max_history :: int
  request_times :: deque
  error_count :: int
  success_count :: int
  total_requests :: int
  requests_by_format :: "string \<rightharpoonup> int"
  requests_by_intent :: "string \<rightharpoonup> int"
  start_time :: rat

definition ApplicationMetrics_init :: "int \<Rightarrow> rat \<Rightarrow> py_error + ApplicationMetrics" where
  \<comment> \<open>\<^verbatim>\<open>__init__(self, max_history)\<close>; the second argument is the reading of \<^verbatim>\<open>time.time()\<close>.\<close>
  "ApplicationMetrics_init mh now =
     (case deque_new mh of
        Inl e \<Rightarrow> Inl e
      | Inr d \<Rightarrow> Inr \<lparr>max_history = mh, request_times = d, error_count = 0,
                      success_count = 0, total_requests = 0,
                      requests_by_format = Map.empty, requests_by_intent = Map.empty,
                      start_time = now\<rparr>)"

definition truthy :: "string option \<Rightarrow> bool" where
  \<comment> \<open>\<^verbatim>\<open>if format:\<close> holds for a string that is neither None nor empty.\<close>
  "truthy s = (case s of None \<Rightarrow> False | Some t \<Rightarrow> t \<noteq> [])"

definition tally :: "(string \<rightharpoonup> int) \<Rightarrow> string \<Rightarrow> (string \<rightharpoonup> int)" where
  \<comment> \<open>\<^verbatim>\<open>d[k] = d.get(k, 0) + 1\<close>\<close>
  "tally d k = d(k \<mapsto> (case d k of None \<Rightarrow> 0 | Some c \<Rightarrow> c) + 1)"

definition record_request ::
  "ApplicationMetrics \<Rightarrow> rat \<Rightarrow> string option \<Rightarrow> string option \<Rightarrow> bool \<Rightarrow> ApplicationMetrics" where
  "record_request m duration format intent success =
     (let m1 = m\<lparr>request_times := deque_append (request_times m) duration\<rparr>;
          m2 = m1\<lparr>total_requests := total_requests m1 + 1\<rparr>;
          m3 = (if success then m2\<lparr>success_count := success_count m2 + 1\<rparr>
                else m2\<lparr>error_count := error_count m2 + 1\<rparr>);
          m4 = (if truthy format
                then m3\<lparr>requests_by_format := tally (requests_by_format m3) (the format)\<rparr>
                else m3)
      in (if truthy intent
          then m4\<lparr>requests_by_intent := tally (requests_by_intent m4) (the intent)\<rparr>
          else m4))"

definition reset :: "ApplicationMetrics \<Rightarrow> rat \<Rightarrow> ApplicationMetrics" where
  \<comment> \<open>The second argument is the reading of \<^verbatim>\<open>time.time()\<close>.\<close>
  "reset m now =
     m\<lparr>request_times := deque_clear (request_times m), error_count := 0, success_count := 0,
       total_requests := 0, requests_by_format := Map.empty, requests_by_intent := Map.empty,
       start_time := now\<rparr>"

definition get_average_response_time :: "ApplicationMetrics \<Rightarrow> py_error + pyfloat" where
  "get_average_response_time m =
     (if items (request_times m) = [] then Inr (Finite 0)
      else case float_of_int (int (length (items (request_times m)))) of
             Inl e \<Rightarrow> Inl e
           | Inr n \<Rightarrow> float_div (py_sum (items (request_times m))) n)"

definition percentile_index :: "nat \<Rightarrow> int \<Rightarrow> py_error + int" where
  \<comment> \<open>\<^verbatim>\<open>int(len(sorted_times) * (percentile / 100))\<close>\<close>
  "percentile_index n percentile =
     (case int_truediv percentile 100 of
        Inl e \<Rightarrow> Inl e
      | Inr f \<Rightarrow>
          (case float_of_int (int n) of
             Inl e \<Rightarrow> Inl e
           | Inr nf \<Rightarrow>
               (case float_mul nf f of
                  Finite y \<Rightarrow> Inr (py_int y)
                | _ \<Rightarrow> Inl OverflowError)))"

text \<open>
  \<open>get_percentile\<close> returns the recorder beside its result, as a method that could change it:
  \<^verbatim>\<open>sorted\<close> builds a new list and leaves the deque alone.
\<close>

definition get_percentile ::
  "ApplicationMetrics \<Rightarrow> int \<Rightarrow> (py_error + rat) \<times> ApplicationMetrics" where
  "get_percentile m percentile =
     (if items (request_times m) = [] then (Inr 0, m)
      else
        let sorted_times = sort (items (request_times m))
        in (case percentile_index (length sorted_times) percentile of
              Inl e \<Rightarrow> (Inl e, m)
            | Inr index \<Rightarrow>
                (py_getitem sorted_times (min index (int (length sorted_times) - 1)), m)))"

definition get_error_rate :: "ApplicationMetrics \<Rightarrow> py_error + pyfloat" where
  "get_error_rate m =
     (if total_requests m = 0 then Inr (Finite 0)
      else case int_truediv (error_count m) (total_requests m) of
             Inl e \<Rightarrow> Inl e
           | Inr q \<Rightarrow> Inr (float_mul q 100))"

definition get_success_rate :: "ApplicationMetrics \<Rightarrow> py_error + pyfloat" where
  "get_success_rate m =
     (if total_requests m = 0 then Inr (Finite 0)
      else case int_truediv (success_count m) (total_requests m) of
             Inl e \<Rightarrow> Inl e
           | Inr q \<Rightarrow> Inr (float_mul q 100))"

text \<open>One call of \<^verbatim>\<open>record_request\<close> with its four arguments, and a sequence of calls.\<close>

record request =
  req_duration :: rat
  req_format :: "string option"
  req_intent :: "string option"
  req_success :: bool

definition record_one :: "ApplicationMetrics \<Rightarrow> request \<Rightarrow> ApplicationMetrics" where
  "record_one m r = record_request m (req_duration r) (req_format r) (req_intent r) (req_success r)"

fun record_all :: "ApplicationMetrics \<Rightarrow> request list \<Rightarrow> ApplicationMetrics" where
  "record_all m [] = m"
| "record_all m (r # rs) = record_all (record_one m r) rs"

definition plain :: "rat \<Rightarrow> request" where
  \<comment> \<open>\<^verbatim>\<open>record_request(d)\<close> with the default arguments: no tags, success.\<close>
  "plain d = \<lparr>req_duration = d, req_format = None, req_intent = None, req_success = True\<rparr>"

definition window :: "ApplicationMetrics \<Rightarrow> rat list" where
  "window m = items (request_times m)"

definition capacity :: "ApplicationMetrics \<Rightarrow> nat" where
  "capacity m = maxlen (request_times m)"

definition counters_balanced :: "ApplicationMetrics \<Rightarrow> bool" where
  "counters_balanced m \<longleftrightarrow> success_count m + error_count m = total_requests m"

text \<open>Any interleaving of \<^verbatim>\<open>record_request\<close> and \<^verbatim>\<open>reset\<close> calls on one recorder.\<close>

datatype method_call = RecordRequest request | Reset rat

fun run_calls :: "ApplicationMetrics \<Rightarrow> method_call list \<Rightarrow> ApplicationMetrics" where
  "run_calls m [] = m"
| "run_calls m (RecordRequest r # cs) = run_calls (record_one m r) cs"
| "run_calls m (Reset now # cs) = run_calls (reset m now) cs"

definition counters_ok :: "ApplicationMetrics \<Rightarrow> bool" where
  "counters_ok m \<longleftrightarrow>
     0 \<le> error_count m \<and> 0 \<le> success_count m \<and>
     success_count m + error_count m = total_requests m"

text \<open>
  The percentile as the specification words it: sort a copy ascending and take the element at
  index \<open>floor(n * p/100)\<close> clamped to \<open>[0, n - 1]\<close>, or 0 on an empty window. The product is
  the double-precision one of the source expression \<^verbatim>\<open>len(sorted_times) * (percentile / 100)\<close>.
\<close>

definition spec_index :: "nat \<Rightarrow> int \<Rightarrow> int" where
  "spec_index n p = \<lfloor>round_double (round_double (of_nat n) * round_double (of_int p / 100))\<rfloor>"

definition spec_percentile :: "rat list \<Rightarrow> int \<Rightarrow> rat" where
  "spec_percentile w p =
     (if w = [] then 0
      else sort w ! nat (max 0 (min (spec_index (length w) p) (int (length w) - 1))))"

definition failed :: "rat \<Rightarrow> request" where
  \<comment> \<open>\<^verbatim>\<open>record_request(d, success=False)\<close>\<close>
  "failed d = \<lparr>req_duration = d, req_format = None, req_intent = None, req_success = False\<rparr>"

definition example_recorder :: "request list \<Rightarrow> ApplicationMetrics" where
  \<comment> \<open>\<^verbatim>\<open>ApplicationMetrics()\<close>, with the default capacity 1000, after the given calls\<close>
  "example_recorder reqs = record_all (projr (ApplicationMetrics_init 1000 0)) reqs"

definition rate_sum :: "ApplicationMetrics \<Rightarrow> py_error + pyfloat" where
  \<comment> \<open>\<^verbatim>\<open>m.get_error_rate() + m.get_success_rate()\<close>\<close>
  "rate_sum m =
     (case get_error_rate m of
        Inl e \<Rightarrow> Inl e
      | Inr a \<Rightarrow> (case get_success_rate m of Inl e \<Rightarrow> Inl e | Inr b \<Rightarrow> Inr (float_add a b)))"

section \<open>HealthChecker\<close>

text \<open>
  A probe reading is a number or a composite (a dict of numeric fields). A probe is a
  zero-argument callable with arbitrary effects: a function on the state \<open>'w\<close> of the world it
  observes. A call of a probe ends in one of two ways: it returns its reading, or it raises an
  exception of some class with some message. The handler of \<^verbatim>\<open>run_checks\<close> is
  \<^verbatim>\<open>except Exception\<close>: it catches \<^verbatim>\<open>Exception\<close> and its subclasses, and nothing else of
  \<^verbatim>\<open>BaseException\<close>, so \<^verbatim>\<open>SystemExit\<close> (a probe that calls \<^verbatim>\<open>sys.exit\<close>),
  \<^verbatim>\<open>KeyboardInterrupt\<close> (an interrupt while a probe runs) and \<^verbatim>\<open>GeneratorExit\<close> leave
  \<^verbatim>\<open>run_checks\<close> from inside the loop. A probe acts on the world, not on the registry the
  loop iterates over.
  Dicts whose order matters (the registry, the per-probe results) are association lists:
  \<open>AList.update\<close> overwrites in place or appends, as a Python dict does.
\<close>

datatype reading = Scalar rat | Composite "(string \<times> rat) list"

datatype exc_class =
    Exception \<comment> \<open>\<^verbatim>\<open>Exception\<close> or one of its subclasses\<close>
  | SystemExit
  | KeyboardInterrupt
  | GeneratorExit
  | OtherBaseException \<comment> \<open>any other class derived from \<^verbatim>\<open>BaseException\<close> directly\<close>

datatype outcome = Returns reading | Raises exc_class string

definition is_Exception :: "exc_class \<Rightarrow> bool" where
  \<comment> \<open>whether \<^verbatim>\<open>except Exception\<close> catches an exception of the class\<close>
  "is_Exception k = (k = Exception)"

record 'w check =
  check_func :: "'w \<Rightarrow> outcome \<times> 'w"
  threshold :: "(string \<times> rat) list"
  last_status :: "string option"
  last_value :: "reading option"

record 'w HealthChecker =
  checks :: "(string \<times> 'w check) list"
  last_check_time :: "rat option"

record check_result =
  res_status :: string
  res_value :: "reading option"
  res_error :: "string option"

record results =
  timestamp :: rat
  check_results :: "(string \<times> check_result) list"
  overall_status :: string

definition HealthChecker_init :: "'w HealthChecker" where
  "HealthChecker_init = \<lparr>checks = [], last_check_time = None\<rparr>"

definition add_check ::
  "'w HealthChecker \<Rightarrow> string \<Rightarrow> ('w \<Rightarrow> outcome \<times> 'w) \<Rightarrow> (string \<times> rat) list option
     \<Rightarrow> 'w HealthChecker" where
  "add_check hc name f thr =
     hc\<lparr>checks := AList.update name
            \<lparr>check_func = f, threshold = (case thr of None \<Rightarrow> [] | Some t \<Rightarrow> t),
             last_status = None, last_value = None\<rparr> (checks hc)\<rparr>"

definition evaluate_status :: "reading \<Rightarrow> (string \<times> rat) list \<Rightarrow> string" where
  "evaluate_status v thr =
     (if thr = [] then ''healthy''
      else
        let x = (case v of
                   Composite d \<Rightarrow> (case map_of d ''percent'' of None \<Rightarrow> 0 | Some y \<Rightarrow> y)
                 | Scalar y \<Rightarrow> y)
        in if (case map_of thr ''max'' of None \<Rightarrow> False | Some b \<Rightarrow> b < x) then ''unhealthy''
           else if (case map_of thr ''warning'' of None \<Rightarrow> False | Some b \<Rightarrow> b < x)
           then ''degraded''
           else ''healthy'')"

definition loop_body ::
  "string \<Rightarrow> 'w check \<Rightarrow> results \<Rightarrow> 'w \<Rightarrow> (exc_class \<times> string + 'w check \<times> results) \<times> 'w" where
  \<comment> \<open>one pass through the body of \<^verbatim>\<open>for name, check in self.checks.items()\<close>: the \<^verbatim>\<open>try\<close>
      block when the probe returns, the \<^verbatim>\<open>except Exception\<close> block when it raises an
      exception of that class, and \<open>Inl\<close> the exception when it raises one of another class,
      which no handler of the method catches\<close>
  "loop_body name check res w =
     (case check_func check w of
        (Returns v, w') \<Rightarrow>
          let status = evaluate_status v (threshold check);
              res1 = res\<lparr>check_results := AList.update name
                          \<lparr>res_status = status, res_value = Some v, res_error = None\<rparr>
                          (check_results res)\<rparr>;
              check' = check\<lparr>last_status := Some status, last_value := Some v\<rparr>;
              res2 = (if status = ''unhealthy'' then res1\<lparr>overall_status := ''unhealthy''\<rparr>
                      else if status = ''degraded'' \<and> overall_status res1 \<noteq> ''unhealthy''
                      then res1\<lparr>overall_status := ''degraded''\<rparr>
                      else res1)
          in (Inr (check', res2), w')
      | (Raises k msg, w') \<Rightarrow>
          if is_Exception k then
            let res1 = res\<lparr>check_results := AList.update name
                            \<lparr>res_status = ''error'', res_value = None, res_error = Some msg\<rparr>
                            (check_results res)\<rparr>;
                res2 = res1\<lparr>overall_status := ''unhealthy''\<rparr>
            in (Inr (check, res2), w')
          else (Inl (k, msg), w'))"

fun run_loop ::
  "(string \<times> 'w check) list \<Rightarrow> results \<Rightarrow> 'w
     \<Rightarrow> (exc_class \<times> string + results) \<times> (string \<times> 'w check) list \<times> 'w" where
  \<comment> \<open>the \<^verbatim>\<open>for\<close> loop: an exception that leaves the body leaves the loop, and the probes
      registered after the one that raised it are not called\<close>
  "run_loop [] res w = (Inr res, [], w)"
| "run_loop ((name, check) # rest) res w =
     (case loop_body name check res w of
        (Inl e, w') \<Rightarrow> (Inl e, (name, check) # rest, w')
      | (Inr (check', res'), w') \<Rightarrow>
          (case run_loop rest res' w' of (out, cs, w'') \<Rightarrow> (out, (name, check') # cs, w'')))"

definition run_checks ::
  "'w HealthChecker \<Rightarrow> rat \<Rightarrow> 'w \<Rightarrow> (exc_class \<times> string + results) \<times> 'w HealthChecker \<times> 'w" where
  \<comment> \<open>The second argument is the reading of \<^verbatim>\<open>datetime.now()\<close>. The result is \<open>Inr\<close> the
      report the method returns, or \<open>Inl\<close> the exception it propagates to its caller; the
      checker and the world are as the call leaves them in both cases.\<close>
  "run_checks hc now w =
     (case run_loop (checks hc)
             \<lparr>timestamp = now, check_results = [], overall_status = ''healthy''\<rparr> w of
        (out, cs, w') \<Rightarrow> (out, hc\<lparr>checks := cs, last_check_time := Some now\<rparr>, w'))"

definition get_health_status ::
  "'w HealthChecker \<Rightarrow> rat \<Rightarrow> 'w \<Rightarrow> (exc_class \<times> string + string) \<times> 'w HealthChecker \<times> 'w" where
  "get_health_status hc now w =
     (case run_checks hc now w of
        (Inl e, hc', w') \<Rightarrow> (Inl e, hc', w')
      | (Inr r, hc', w') \<Rightarrow> (Inr (overall_status r), hc', w'))"

text \<open>
  The specification's wording of the evaluator: the rule of \<open>evaluate_one\<close> on the two optional
  bounds, the severity order \<open>error = unhealthy > degraded > healthy\<close>, and the outcome of every
  probe when each is invoked once, in registration order, whatever the others did
  (\<open>probe_outcomes\<close>, which calls every probe, also after one that raised). The status of a
  registered probe is then the one its outcome deserves (\<open>probe_statuses\<close>): the evaluation of
  its reading against its own threshold, or error when it raised.
\<close>

definition evaluate_one :: "reading \<Rightarrow> rat option \<Rightarrow> rat option \<Rightarrow> string" where
  "evaluate_one v warning_bound max_bound =
     (let x = (case v of Scalar y \<Rightarrow> y
               | Composite d \<Rightarrow> (case map_of d ''percent'' of Some y \<Rightarrow> y | None \<Rightarrow> 0))
      in case (warning_bound, max_bound) of
           (None, None) \<Rightarrow> ''healthy''
         | (Some a, None) \<Rightarrow> (if x > a then ''degraded'' else ''healthy'')
         | (None, Some b) \<Rightarrow> (if x > b then ''unhealthy'' else ''healthy'')
         | (Some a, Some b) \<Rightarrow>
             (if x > b then ''unhealthy'' else if x > a then ''degraded'' else ''healthy''))"

definition severity :: "string \<Rightarrow> nat" where
  "severity s =
     (if s = ''unhealthy'' \<or> s = ''error'' then 2 else if s = ''degraded'' then 1 else 0)"

definition most_severe :: "string list \<Rightarrow> string" where
  "most_severe ss =
     (let k = fold max (map severity ss) 0
      in if k = 2 then ''unhealthy'' else if k = 1 then ''degraded'' else ''healthy'')"

definition statuses :: "results \<Rightarrow> string list" where
  \<comment> \<open>the per-probe statuses a report lists, in its order\<close>
  "statuses r = map (\<lambda>(name, c). res_status c) (check_results r)"

fun probe_outcomes ::
  "(string \<times> 'w check) list \<Rightarrow> 'w \<Rightarrow> (string \<times> outcome) list \<times> 'w" where
  "probe_outcomes [] w = ([], w)"
| "probe_outcomes ((name, c) # rest) w =
     (case check_func c w of
        (out, w') \<Rightarrow> (case probe_outcomes rest w' of (outs, w'') \<Rightarrow> ((name, out) # outs, w'')))"

definition expected_result :: "'w check \<Rightarrow> outcome \<Rightarrow> check_result" where
  \<comment> \<open>the per-probe entry: \<open>{status, value}\<close> for a reading, \<open>{status: error, error}\<close> for a failure\<close>
  "expected_result c out =
     (case out of
        Raises k msg \<Rightarrow> \<lparr>res_status = ''error'', res_value = None, res_error = Some msg\<rparr>
      | Returns v \<Rightarrow> \<lparr>res_status = evaluate_status v (threshold c), res_value = Some v,
                      res_error = None\<rparr>)"

definition expected_entries ::
  "(string \<times> 'w check) list \<Rightarrow> (string \<times> outcome) list \<Rightarrow> (string \<times> check_result) list" where
  \<comment> \<open>the per-probe entries for a registry and the outcomes of its probes, in order\<close>
  "expected_entries cs outs =
     map (\<lambda>((name, c), (n, out)). (name, expected_result c out)) (zip cs outs)"

definition probe_statuses :: "(string \<times> 'w check) list \<Rightarrow> 'w \<Rightarrow> string list" where
  \<comment> \<open>the status of every registered probe, from the outcome of its call, in registration order\<close>
  "probe_statuses cs w =
     map (\<lambda>(name, e). res_status e) (expected_entries cs (fst (probe_outcomes cs w)))"

definition propagates :: "outcome \<Rightarrow> bool" where
  \<comment> \<open>the probe raised an exception that \<^verbatim>\<open>except Exception\<close> does not catch\<close>
  "propagates out = (case out of Returns v \<Rightarrow> False | Raises k msg \<Rightarrow> \<not> is_Exception k)"

definition all_caught :: "(string \<times> 'w check) list \<Rightarrow> 'w \<Rightarrow> bool" where
  \<comment> \<open>no probe of the registry raises an exception outside \<^verbatim>\<open>Exception\<close>\<close>
  "all_caught cs w = list_all (\<lambda>(name, out). \<not> propagates out) (fst (probe_outcomes cs w))"

definition constant_probe :: "rat \<Rightarrow> 'w \<Rightarrow> outcome \<times> 'w" where
  \<comment> \<open>a probe that returns the same number at every call\<close>
  "constant_probe x w = (Returns (Scalar x), w)"

definition failing_probe :: "string \<Rightarrow> 'w \<Rightarrow> outcome \<times> 'w" where
  \<comment> \<open>a probe that raises \<^verbatim>\<open>Exception(msg)\<close> at every call\<close>
  "failing_probe msg w = (Raises Exception msg, w)"

text \<open>The registries of the scenarios: a constant \<open>cpu\<close> probe, then a constant \<open>disk\<close> probe.\<close>

definition cpu_threshold :: "(string \<times> rat) list" where
  \<comment> \<open>\<^verbatim>\<open>{'warning': 70, 'max': 90}\<close>\<close>
  "cpu_threshold = AList.update ''max'' 90 (AList.update ''warning'' 70 [])"

definition disk_threshold :: "(string \<times> rat) list" where
  \<comment> \<open>\<^verbatim>\<open>{'warning': 80, 'max': 95}\<close>\<close>
  "disk_threshold = AList.update ''max'' 95 (AList.update ''warning'' 80 [])"

definition scenario_A :: "'w HealthChecker" where
  "scenario_A = add_check HealthChecker_init ''cpu'' (constant_probe 85) (Some cpu_threshold)"

definition scenario_B :: "'w HealthChecker" where
  "scenario_B = add_check scenario_A ''disk'' (constant_probe 97) (Some disk_threshold)"




definition scenario_all_fail :: "'w HealthChecker" where
  "scenario_all_fail =
     add_check (add_check HealthChecker_init ''db'' (failing_probe ''timeout'') None)
       ''cache'' (failing_probe ''refused'') (Some cpu_threshold)"

section \<open>The summary and the lock\<close>

text \<open>
  \<^verbatim>\<open>get_summary\<close> evaluates the entries of its dict in order; \<open>read_entry\<close> is the value of one
  entry before it is formatted. The two entries computed from the clock
  (\<^verbatim>\<open>uptime_seconds\<close>, \<^verbatim>\<open>requests_per_minute\<close>) are left out.
\<close>

datatype entry =
  TotalRequests | SuccessCount | ErrorCount | SuccessRate | ErrorRate | AvgResponseTime
| P50 | P95 | P99 | RequestsByFormat | RequestsByIntent

datatype summary_value =
  Count int | Rate "py_error + pyfloat" | Seconds "py_error + rat" | Tally "string \<rightharpoonup> int"

definition summary_keys :: "entry list" where
  "summary_keys =
     [TotalRequests, SuccessCount, ErrorCount, SuccessRate, ErrorRate, AvgResponseTime,
      P50, P95, P99, RequestsByFormat, RequestsByIntent]"

fun read_entry :: "ApplicationMetrics \<Rightarrow> entry \<Rightarrow> summary_value" where
  "read_entry m TotalRequests = Count (total_requests m)"
| "read_entry m SuccessCount = Count (success_count m)"
| "read_entry m ErrorCount = Count (error_count m)"
| "read_entry m SuccessRate = Rate (get_success_rate m)"
| "read_entry m ErrorRate = Rate (get_error_rate m)"
| "read_entry m AvgResponseTime = Rate (get_average_response_time m)"
| "read_entry m P50 = Seconds (fst (get_percentile m 50))"
| "read_entry m P95 = Seconds (fst (get_percentile m 95))"
| "read_entry m P99 = Seconds (fst (get_percentile m 99))"
| "read_entry m RequestsByFormat = Tally (requests_by_format m)"
| "read_entry m RequestsByIntent = Tally (requests_by_intent m)"

definition get_summary :: "ApplicationMetrics \<Rightarrow> (entry \<times> summary_value) list" where
  "get_summary m = map (\<lambda>k. (k, read_entry m k)) summary_keys"

text \<open>
  Threads. A method is the list of its atomic statements: \<^verbatim>\<open>record_request\<close> and \<^verbatim>\<open>reset\<close>
  run their bodies inside \<^verbatim>\<open>with self._lock\<close>; \<^verbatim>\<open>get_summary\<close> has no \<^verbatim>\<open>with\<close> statement, so
  its statements are the reads alone. A schedule names the thread that takes each step;
  acquiring a held lock blocks (the step is refused).
\<close>

datatype stmt = Acquire | Release | Body method_call | Read entry

definition record_request_stmts :: "request \<Rightarrow> stmt list" where
  "record_request_stmts r = [Acquire, Body (RecordRequest r), Release]"

definition reset_stmts :: "rat \<Rightarrow> stmt list" where
  "reset_stmts now = [Acquire, Body (Reset now), Release]"

definition get_summary_stmts :: "stmt list" where
  "get_summary_stmts = map Read summary_keys"

record thread =
  todo :: "stmt list"
  view :: "(entry \<times> summary_value) list"

record system =
  shared :: ApplicationMetrics
  lock :: "nat option"
  threads :: "thread list"

definition advance :: "system \<Rightarrow> nat \<Rightarrow> thread \<Rightarrow> system" where
  "advance s i t = s\<lparr>threads := (threads s)[i := t]\<rparr>"

definition step :: "system \<Rightarrow> nat \<Rightarrow> system option" where
  "step s i =
     (if length (threads s) \<le> i then None
      else
        let t = threads s ! i
        in case todo t of
             [] \<Rightarrow> None
           | Acquire # rest \<Rightarrow>
               (if lock s = None then Some ((advance s i (t\<lparr>todo := rest\<rparr>))\<lparr>lock := Some i\<rparr>)
                else None)
           | Release # rest \<Rightarrow>
               (if lock s = Some i then Some ((advance s i (t\<lparr>todo := rest\<rparr>))\<lparr>lock := None\<rparr>)
                else None)
           | Body c # rest \<Rightarrow>
               Some ((advance s i (t\<lparr>todo := rest\<rparr>))\<lparr>shared := run_calls (shared s) [c]\<rparr>)
           | Read k # rest \<Rightarrow>
               Some (advance s i (t\<lparr>todo := rest, view := view t @ [(k, read_entry (shared s) k)]\<rparr>)))"

fun run_schedule :: "system \<Rightarrow> nat list \<Rightarrow> system option" where
  "run_schedule s [] = Some s"
| "run_schedule s (i # rest) = (case step s i of None \<Rightarrow> None | Some s' \<Rightarrow> run_schedule s' rest)"

definition two_threads :: system where
  "two_threads =
     \<lparr>shared = example_recorder [], lock = None,
      threads = [\<lparr>todo = get_summary_stmts, view = []\<rparr>,
                 \<lparr>todo = record_request_stmts (plain 1), view = []\<rparr>]\<rparr>"

definition torn_schedule :: "nat list" where
  "torn_schedule = [0, 0, 0, 1, 1, 1, 0, 0, 0, 0, 0, 0, 0, 0]"

definition returned_summary :: "system option \<Rightarrow> (entry \<times> summary_value) list option" where
  "returned_summary r =
     (case r of
        None \<Rightarrow> None
      | Some s \<Rightarrow> (if todo (threads s ! 0) = [] then Some (view (threads s ! 0)) else None))"

text \<open>
  For comparison, \<^verbatim>\<open>get_summary\<close> as the claim describes it: the same reads inside
  \<^verbatim>\<open>with self._lock\<close>, beside one thread in \<^verbatim>\<open>record_request\<close>; and the invariant of that system:
  the reader has not started, or holds the lock and has read a prefix of the entries from the
  present state, or has returned the summary of one state; the writer holds the lock exactly
  between its \<^verbatim>\<open>Acquire\<close> and its \<^verbatim>\<open>Release\<close>.
\<close>

definition locked_summary_stmts :: "stmt list" where
  "locked_summary_stmts = Acquire # map Read summary_keys @ [Release]"

definition locked_threads :: "request \<Rightarrow> system" where
  "locked_threads r =
     \<lparr>shared = example_recorder [], lock = None,
      threads = [\<lparr>todo = locked_summary_stmts, view = []\<rparr>,
                 \<lparr>todo = record_request_stmts r, view = []\<rparr>]\<rparr>"

definition reader_ok :: "system \<Rightarrow> thread \<Rightarrow> bool" where
  "reader_ok s t \<longleftrightarrow>
     (todo t = locked_summary_stmts \<and> view t = [] \<and> lock s \<noteq> Some 0) \<or>
     (\<exists>k\<le>length summary_keys.
         todo t = map Read (drop k summary_keys) @ [Release] \<and>
         view t = map (\<lambda>e. (e, read_entry (shared s) e)) (take k summary_keys) \<and>
         lock s = Some 0) \<or>
     (todo t = [] \<and> lock s \<noteq> Some 0 \<and> (\<exists>m. view t = get_summary m))"

definition writer_ok :: "request \<Rightarrow> system \<Rightarrow> thread \<Rightarrow> bool" where
  "writer_ok r s t \<longleftrightarrow>
     (todo t = [Acquire, Body (RecordRequest r), Release] \<and> lock s \<noteq> Some 1) \<or>
     (todo t = [Body (RecordRequest r), Release] \<and> lock s = Some 1) \<or>
     (todo t = [Release] \<and> lock s = Some 1) \<or>
     (todo t = [] \<and> lock s \<noteq> Some 1)"

definition safe :: "request \<Rightarrow> system \<Rightarrow> bool" where
  "safe r s \<longleftrightarrow> (\<exists>t0 t1. threads s = [t0, t1] \<and> reader_ok s t0 \<and> writer_ok r s t1)"

section \<open>Counters\<close>

lemma record_all_snoc: "record_all m (rs @ [r]) = record_one (record_all m rs) r"
  by (induction rs arbitrary: m) simp_all

lemma counters_balanced_init:
  "ApplicationMetrics_init mh now = Inr m \<Longrightarrow> counters_balanced m"
  by (auto simp: ApplicationMetrics_init_def counters_balanced_def split: sum.splits)

lemma counters_balanced_reset: "counters_balanced (reset m now)"
  by (simp add: reset_def counters_balanced_def)

lemma counters_balanced_record_one:
  "counters_balanced m \<Longrightarrow> counters_balanced (record_one m r)"
  by (simp add: record_one_def record_request_def counters_balanced_def Let_def)

lemma counters_balanced_record_all:
  "counters_balanced m \<Longrightarrow> counters_balanced (record_all m rs)"
  by (induction rs arbitrary: m) (simp_all add: counters_balanced_record_one)

text \<open>
  Claim C1. Start from a fresh recorder (\<open>ApplicationMetrics_init\<close> succeeded) or from one that
  was just reset. For every sequence of \<^verbatim>\<open>record_request\<close> calls, with any durations, tags and
  success flags, after each call of the sequence (that is, after every prefix of it)
  \<open>success_count + error_count = total_requests\<close>.
\<close>

theorem counter_invariant:
  assumes "ApplicationMetrics_init mh now = Inr m0 \<or> m0 = reset m now"
  shows "\<forall>k \<le> length reqs.
           success_count (record_all m0 (take k reqs)) + error_count (record_all m0 (take k reqs))
             = total_requests (record_all m0 (take k reqs))"
proof -
  from assms have "counters_balanced m0"
    using counters_balanced_init counters_balanced_reset by blast
  then have "counters_balanced (record_all m0 (take k reqs))" for k
    by (rule counters_balanced_record_all)
  then show ?thesis
    by (simp add: counters_balanced_def)
qed

theorem counter_invariant_witness:
  "\<not> isl (ApplicationMetrics_init 5 0) \<and>
   (let m' = record_all (projr (ApplicationMetrics_init 5 0))
               [plain 1, \<lparr>req_duration = 2, req_format = Some ''PDF'', req_intent = None,
                          req_success = False\<rparr>]
    in success_count m' + error_count m' = total_requests m' \<and> total_requests m' = 2)"
proof -
  let ?reqs = "[plain 1, \<lparr>req_duration = 2, req_format = Some ''PDF'', req_intent = None,
                          req_success = False\<rparr>]"
  have h: "ApplicationMetrics_init 5 0 = Inr (projr (ApplicationMetrics_init 5 0))"
    by (simp add: ApplicationMetrics_init_def deque_new_def)
  have "success_count (record_all (projr (ApplicationMetrics_init 5 0)) (take 2 ?reqs))
          + error_count (record_all (projr (ApplicationMetrics_init 5 0)) (take 2 ?reqs))
        = total_requests (record_all (projr (ApplicationMetrics_init 5 0)) (take 2 ?reqs))"
    using counter_invariant [where mh = 5 and now = 0
        and ?m0.0 = "projr (ApplicationMetrics_init 5 0)" and reqs = ?reqs,
        OF disjI1 [OF h], rule_format, where k = 2]
    by simp
  moreover have "total_requests (record_all (projr (ApplicationMetrics_init 5 0)) ?reqs) = 2"
    by (simp add: ApplicationMetrics_init_def deque_new_def record_one_def record_request_def
        plain_def truthy_def Let_def)
  moreover have "\<not> isl (ApplicationMetrics_init 5 0)"
    by (simp add: ApplicationMetrics_init_def deque_new_def)
  ultimately show ?thesis
    by (simp add: Let_def)
qed

section \<open>The rolling window\<close>

lemma window_record_one:
  "window (record_one m r) =
     (if capacity m < length (window m) + 1 then tl (window m @ [req_duration r])
      else window m @ [req_duration r])"
  by (simp add: window_def capacity_def record_one_def record_request_def deque_append_def Let_def)

lemma capacity_record_one: "capacity (record_one m r) = capacity m"
  by (simp add: capacity_def record_one_def record_request_def deque_append_def Let_def)

lemma capacity_record_all: "capacity (record_all m rs) = capacity m"
  by (induction rs arbitrary: m) (simp_all add: capacity_record_one)

lemma tl_drop_snoc:
  assumes "k \<le> length T"
  shows "tl (drop k T @ [x]) = drop (Suc k) (T @ [x])"
proof -
  have "drop (Suc k) (T @ [x]) = tl (drop k (T @ [x]))"
    by (simp only: drop_Suc tl_drop)
  also have "\<dots> = tl (drop k T @ [x])"
    using assms by simp
  finally show ?thesis by simp
qed

lemma window_record_all:
  assumes "length (window m) \<le> capacity m"
  shows "window (record_all m rs) =
           drop (length (window m @ map req_duration rs) - capacity m)
                (window m @ map req_duration rs)"
proof (induction rs rule: rev_induct)
  case Nil
  from assms show ?case by simp
next
  case (snoc r rs)
  let ?T = "window m @ map req_duration rs"
  let ?N = "capacity m"
  have W: "window (record_all m rs) = drop (length ?T - ?N) ?T"
    by (rule snoc.IH)
  show ?case
  proof (cases "length ?T < ?N")
    case True
    then show ?thesis
      using W by (simp add: record_all_snoc window_record_one capacity_record_all)
  next
    case False
    then have len: "length (window (record_all m rs)) = ?N"
      using W by simp
    have "tl (drop (length ?T - ?N) ?T @ [req_duration r])
            = drop (Suc (length ?T - ?N)) (?T @ [req_duration r])"
      by (rule tl_drop_snoc) simp
    then show ?thesis
      using False W len
      by (simp add: record_all_snoc window_record_one capacity_record_all Suc_diff_le)
  qed
qed

section \<open>Rounding to double precision\<close>

lemma pow2_powi: "pow2 k = 2 powi k"
  by (simp add: pow2_def power_int_def power_one_over)

lemma pow2_pos [simp]: "0 < pow2 k"
  by (simp add: pow2_powi)

lemma pow2_nonneg [simp]: "0 \<le> pow2 k"
  using pow2_pos [of k] by (rule less_imp_le)

lemma pow2_add: "pow2 (a + b) = pow2 a * pow2 b"
  by (simp add: pow2_powi power_int_add)

lemma pow2_mono: "a \<le> b \<Longrightarrow> pow2 a \<le> pow2 b"
  by (simp add: pow2_powi power_int_increasing)

lemma pow2_strict_mono: "a < b \<Longrightarrow> pow2 a < pow2 b"
  by (simp add: pow2_powi power_int_strict_increasing)

lemma pow2_le_iff [simp]: "pow2 a \<le> pow2 b \<longleftrightarrow> a \<le> b"
  using pow2_mono [of a b] pow2_strict_mono [of b a] by (auto simp: not_le [symmetric])

lemma pow2_less_iff [simp]: "pow2 a < pow2 b \<longleftrightarrow> a < b"
  using pow2_mono [of b a] pow2_strict_mono [of a b] by (auto simp: not_less [symmetric])

lemma pow2_nat: "0 \<le> k \<Longrightarrow> pow2 k = of_int (2 ^ nat k)"
  by (simp add: pow2_def)

lemma bitlen_pow2_bounds:
  assumes "0 < a"
  shows "pow2 (bitlen a - 1) \<le> of_int a" and "of_int a < pow2 (bitlen a)"
proof -
  have pos: "0 \<le> bitlen a - 1"
    using assms bitlen_eq_zero_iff [of a] bitlen_nonneg [of a] by linarith
  have "2 ^ nat (bitlen a - 1) \<le> a" and "a < 2 ^ nat (bitlen a)"
    using bitlen_bounds [OF assms] by simp_all
  then have "(of_int (2 ^ nat (bitlen a - 1)) :: rat) \<le> of_int a"
    and "(of_int a :: rat) < of_int (2 ^ nat (bitlen a))"
    by (simp_all only: of_int_le_iff of_int_less_iff)
  then show "pow2 (bitlen a - 1) \<le> of_int a" and "of_int a < pow2 (bitlen a)"
    using pos by (simp_all add: pow2_nat)
qed

lemma float_exponent_bounds:
  assumes "x \<noteq> 0"
  shows "pow2 (float_exponent x) \<le> \<bar>x\<bar>" and "\<bar>x\<bar> < pow2 (float_exponent x + 1)"
proof -
  obtain a b where q: "quotient_of \<bar>x\<bar> = (a, b)"
    by (cases "quotient_of \<bar>x\<bar>")
  have b: "0 < b" using q by (rule quotient_of_denom_pos)
  have x: "\<bar>x\<bar> = of_int a / of_int b" using q by (rule quotient_of_div)
  have a: "0 < a"
  proof -
    have "0 < \<bar>x\<bar>" using assms by simp
    then have "0 < (of_int a :: rat) / of_int b" by (simp only: x)
    then show ?thesis using b by (simp add: zero_less_divide_iff)
  qed
  let ?la = "bitlen a" and ?lb = "bitlen b"
  note la = bitlen_pow2_bounds [OF a] and lb = bitlen_pow2_bounds [OF b]
  have bpos: "0 < (of_int b :: rat)" using b by simp
  have up: "\<bar>x\<bar> < pow2 (?la - ?lb + 1)"
  proof -
    have "of_int a * pow2 (?lb - 1) < pow2 ?la * of_int b"
      using la(2) lb(1) a by (intro mult_less_le_imp_less) simp_all
    also have "pow2 ?la = pow2 (?la - ?lb + 1) * pow2 (?lb - 1)"
      by (simp add: pow2_add [symmetric])
    finally have "of_int a * pow2 (?lb - 1) < (pow2 (?la - ?lb + 1) * of_int b) * pow2 (?lb - 1)"
      by (simp add: mult_ac)
    then have "of_int a < pow2 (?la - ?lb + 1) * of_int b"
      by (simp only: mult_less_cancel_right_pos [OF pow2_pos])
    then show ?thesis
      using bpos by (simp add: x pos_divide_less_eq)
  qed
  have lo: "pow2 (?la - ?lb - 1) \<le> \<bar>x\<bar>"
  proof -
    have "pow2 (?la - ?lb - 1) * of_int b \<le> pow2 (?la - ?lb - 1) * pow2 ?lb"
      using lb(2) by (intro mult_left_mono) simp_all
    also have "\<dots> = pow2 (?la - 1)"
      by (simp add: pow2_add [symmetric])
    also have "\<dots> \<le> of_int a"
      by (rule la(1))
    finally show ?thesis
      using bpos by (simp add: x pos_le_divide_eq)
  qed
  have e: "float_exponent x = (if pow2 (?la - ?lb) \<le> \<bar>x\<bar> then ?la - ?lb else ?la - ?lb - 1)"
    by (simp add: float_exponent_def q Let_def)
  show "pow2 (float_exponent x) \<le> \<bar>x\<bar>"
    using lo by (simp add: e)
  show "\<bar>x\<bar> < pow2 (float_exponent x + 1)"
    using up by (simp add: e not_le)
qed

lemma float_exponent_less: "x \<noteq> 0 \<Longrightarrow> \<bar>x\<bar> < pow2 k \<Longrightarrow> float_exponent x < k"
  using float_exponent_bounds(1) [of x] pow2_less_iff [of "float_exponent x" k] by linarith

lemma float_exponent_ge: "x \<noteq> 0 \<Longrightarrow> pow2 k \<le> \<bar>x\<bar> \<Longrightarrow> k \<le> float_exponent x"
  using float_exponent_bounds(2) [of x] pow2_less_iff [of k "float_exponent x + 1"] by linarith

lemma rne_floor: "\<lfloor>x\<rfloor> \<le> rne x" "rne x \<le> \<lfloor>x\<rfloor> + 1"
  by (simp_all add: rne_def Let_def)

lemma rne_of_int [simp]: "rne (of_int k) = k"
  by (simp add: rne_def)

lemma rne_error: "\<bar>of_int (rne x) - x\<bar> \<le> 1 / 2"
proof -
  have "of_int \<lfloor>x\<rfloor> \<le> x" "x < of_int \<lfloor>x\<rfloor> + 1"
    by linarith+
  then show ?thesis
    by (auto simp: rne_def Let_def)
qed

lemma rne_mono:
  assumes "x \<le> y"
  shows "rne x \<le> rne y"
proof (cases "\<lfloor>x\<rfloor> = \<lfloor>y\<rfloor>")
  case True
  with assms have "x - of_int \<lfloor>x\<rfloor> \<le> y - of_int \<lfloor>y\<rfloor>"
    by simp
  with True show ?thesis
    by (auto simp: rne_def Let_def)
next
  case False
  with assms have "\<lfloor>x\<rfloor> < \<lfloor>y\<rfloor>"
    using floor_mono [of x y] by linarith
  then show ?thesis
    using rne_floor(2) [of x] rne_floor(1) [of y] by linarith
qed

lemma ulp_pos [simp]: "0 < ulp x"
  by (simp add: ulp_def)

lemma ulp_nonneg [simp]: "0 \<le> ulp x"
  using ulp_pos [of x] by (rule less_imp_le)

lemma ulp_neq0 [simp]: "ulp x \<noteq> 0"
  using ulp_pos [of x] by linarith

lemma round_double_le_grid:
  assumes "x \<le> of_int k * ulp x"
  shows "round_double x \<le> of_int k * ulp x"
proof (cases "x = 0")
  case True
  with assms show ?thesis by (simp add: round_double_def)
next
  case False
  from assms have "x / ulp x \<le> of_int k"
    by (simp add: pos_divide_le_eq)
  then have "rne (x / ulp x) \<le> k"
    using rne_mono [of "x / ulp x" "of_int k"] by simp
  then have "(of_int (rne (x / ulp x)) :: rat) \<le> of_int k"
    by (simp only: of_int_le_iff)
  then show ?thesis
    using False by (simp add: round_double_def mult_right_mono)
qed

lemma round_double_ge_grid:
  assumes "of_int k * ulp x \<le> x"
  shows "of_int k * ulp x \<le> round_double x"
proof (cases "x = 0")
  case True
  with assms show ?thesis by (simp add: round_double_def)
next
  case False
  from assms have "of_int k \<le> x / ulp x"
    by (simp add: pos_le_divide_eq)
  then have "k \<le> rne (x / ulp x)"
    using rne_mono [of "of_int k" "x / ulp x"] by simp
  then have "(of_int k :: rat) \<le> of_int (rne (x / ulp x))"
    by (simp only: of_int_le_iff)
  then show ?thesis
    using False by (simp add: round_double_def mult_right_mono)
qed

lemma round_double_error: "\<bar>round_double x - x\<bar> \<le> ulp x / 2"
proof (cases "x = 0")
  case True
  then show ?thesis by (simp add: round_double_def)
next
  case False
  have "\<bar>of_int (rne (x / ulp x)) - x / ulp x\<bar> * ulp x \<le> 1 / 2 * ulp x"
    by (intro mult_right_mono rne_error) simp
  also have "\<bar>of_int (rne (x / ulp x)) - x / ulp x\<bar> * ulp x
               = \<bar>(of_int (rne (x / ulp x)) - x / ulp x) * ulp x\<bar>"
    by (simp add: abs_mult)
  also have "(of_int (rne (x / ulp x)) - x / ulp x) * ulp x = round_double x - x"
    using False by (simp add: round_double_def algebra_simps)
  finally show ?thesis by simp
qed

lemma on_grid:
  assumes "max (float_exponent x) (- 1022) - 52 \<le> j"
  shows "\<exists>k. of_int n * pow2 j = of_int k * ulp x"
proof -
  let ?E = "max (float_exponent x) (- 1022) - 52"
  have "pow2 j = pow2 (j - ?E) * pow2 ?E"
    by (simp add: pow2_add [symmetric])
  also have "pow2 (j - ?E) = of_int (2 ^ nat (j - ?E))"
    using assms by (intro pow2_nat) simp
  finally have "of_int n * pow2 j = of_int (n * 2 ^ nat (j - ?E)) * ulp x"
    by (simp add: ulp_def)
  then show ?thesis ..
qed

lemma round_double_le_pow2:
  assumes "x \<le> pow2 j" and "- 1074 \<le> j"
  shows "round_double x \<le> pow2 j"
proof (cases "0 < x")
  case False
  then have "x \<le> of_int 0 * ulp x" by simp
  then have "round_double x \<le> of_int 0 * ulp x" by (rule round_double_le_grid)
  then show ?thesis using pow2_nonneg [of j] by linarith
next
  case True
  then have "\<bar>x\<bar> < pow2 (j + 1)"
    using assms(1) pow2_strict_mono [of j "j + 1"] by linarith
  then have "float_exponent x < j + 1"
    using True by (intro float_exponent_less) simp_all
  then have "max (float_exponent x) (- 1022) - 52 \<le> j"
    using assms(2) by simp
  then obtain k where k: "of_int 1 * pow2 j = of_int k * ulp x"
    using on_grid by blast
  then have "x \<le> of_int k * ulp x" using assms(1) by simp
  then have "round_double x \<le> of_int k * ulp x" by (rule round_double_le_grid)
  then show ?thesis using k by simp
qed

lemma round_double_nonneg: "0 \<le> x \<Longrightarrow> 0 \<le> round_double x"
  using round_double_ge_grid [of 0 x] by simp

lemma round_double_nonpos: "x \<le> 0 \<Longrightarrow> round_double x \<le> 0"
  using round_double_le_grid [of x 0] by simp

lemma round_double_le_int:
  assumes "x \<le> of_int n" and "\<bar>x\<bar> < pow2 53"
  shows "round_double x \<le> of_int n"
proof (cases "x = 0")
  case True
  with assms show ?thesis by (simp add: round_double_def)
next
  case False
  then have "float_exponent x < 53"
    using assms(2) by (rule float_exponent_less)
  then have "max (float_exponent x) (- 1022) - 52 \<le> 0"
    by simp
  then obtain k where k: "of_int n * pow2 0 = of_int k * ulp x"
    using on_grid by blast
  then have "x \<le> of_int k * ulp x" using assms(1) by (simp add: pow2_def)
  then have "round_double x \<le> of_int k * ulp x" by (rule round_double_le_grid)
  then show ?thesis using k by (simp add: pow2_def)
qed

lemma round_double_ge_int:
  assumes "of_int n \<le> x" and "\<bar>x\<bar> < pow2 53"
  shows "of_int n \<le> round_double x"
proof (cases "x = 0")
  case True
  with assms show ?thesis by (simp add: round_double_def)
next
  case False
  then have "float_exponent x < 53"
    using assms(2) by (rule float_exponent_less)
  then have "max (float_exponent x) (- 1022) - 52 \<le> 0"
    by simp
  then obtain k where k: "of_int n * pow2 0 = of_int k * ulp x"
    using on_grid by blast
  then have "of_int k * ulp x \<le> x" using assms(1) by (simp add: pow2_def)
  then have "of_int k * ulp x \<le> round_double x" by (rule round_double_ge_grid)
  then show ?thesis using k by (simp add: pow2_def)
qed

lemma round_double_of_int:
  assumes "\<bar>n\<bar> < 2 ^ 53"
  shows "round_double (of_int n) = of_int n"
proof -
  have "\<bar>of_int n :: rat\<bar> < pow2 53"
    using assms by (simp add: pow2_def flip: of_int_abs)
  then show ?thesis
    using round_double_le_int [of "of_int n" n] round_double_ge_int [of n "of_int n"]
    by simp
qed

lemma round_double_mono:
  assumes "0 \<le> x" and "x \<le> y"
  shows "round_double x \<le> round_double y"
proof (cases "x = 0")
  case True
  then show ?thesis
    using assms round_double_nonneg [of y] by (simp add: round_double_def)
next
  case False
  with assms have x: "0 < x" and y: "0 < y" by simp_all
  let ?Ex = "max (float_exponent x) (- 1022)" and ?Ey = "max (float_exponent y) (- 1022)"
  have "pow2 (float_exponent x) \<le> \<bar>y\<bar>"
    using float_exponent_bounds(1) [of x] x assms(2) by simp
  then have exy: "float_exponent x \<le> float_exponent y"
    using y by (intro float_exponent_ge) simp_all
  show ?thesis
  proof (cases "?Ex = ?Ey")
    case True
    then have u: "ulp x = ulp y" by (simp add: ulp_def)
    have "x / ulp y \<le> y / ulp y"
      using assms(2) by (simp add: divide_right_mono)
    then have "rne (x / ulp y) \<le> rne (y / ulp y)" by (rule rne_mono)
    then have "(of_int (rne (x / ulp y)) :: rat) \<le> of_int (rne (y / ulp y))"
      by (simp only: of_int_le_iff)
    then show ?thesis
      using x y by (simp add: round_double_def u mult_right_mono)
  next
    case False
    with exy have lt: "?Ex < ?Ey" and Ey: "?Ey = float_exponent y"
      by (auto simp: max_def split: if_splits)
    have "x < pow2 (float_exponent x + 1)"
      using float_exponent_bounds(2) [of x] x by simp
    also have "\<dots> \<le> pow2 (?Ex + 1)"
      by simp
    finally have "x \<le> pow2 (?Ex + 1)" by simp
    moreover obtain k where k: "of_int 1 * pow2 (?Ex + 1) = of_int k * ulp x"
      using on_grid [of x "?Ex + 1" 1] by auto
    ultimately have "round_double x \<le> pow2 (?Ex + 1)"
      using round_double_le_grid [of x k] by simp
    also have "\<dots> \<le> pow2 (float_exponent y)"
      using lt Ey by (intro pow2_mono) linarith
    also have "\<dots> \<le> round_double y"
    proof -
      obtain k' where k': "of_int 1 * pow2 (float_exponent y) = of_int k' * ulp y"
        using on_grid [of y "float_exponent y" 1] Ey by auto
      moreover have "pow2 (float_exponent y) \<le> y"
        using float_exponent_bounds(1) [of y] y by simp
      ultimately show ?thesis
        using round_double_ge_grid [of k' y] by simp
    qed
    finally show ?thesis .
  qed
qed

lemma to_float_Finite: "\<bar>y\<bar> < 2 ^ 1024 \<Longrightarrow> to_float y = Finite y"
  by (simp add: to_float_def)

lemma to_float_small: "\<bar>y\<bar> \<le> 2 ^ 64 \<Longrightarrow> to_float y = Finite y"
proof -
  assume "\<bar>y\<bar> \<le> 2 ^ 64"
  also have "(2::rat) ^ 64 < 2 ^ 1024"
    by (rule power_strict_increasing) simp_all
  finally show ?thesis by (rule to_float_Finite)
qed

lemma round_double_numeral:
  "(numeral k :: int) < 2 ^ 53 \<Longrightarrow> round_double (numeral k) = numeral k"
  using round_double_of_int [of "numeral k"] by simp

lemma float_of_int_numeral:
  "(numeral k :: int) < 2 ^ 53 \<Longrightarrow> float_of_int (numeral k) = Inr (numeral k)"
proof -
  assume k: "(numeral k :: int) < 2 ^ 53"
  then have r: "round_double (numeral k) = numeral k"
    by (rule round_double_numeral)
  have "(numeral k :: int) \<le> 2 ^ 64"
    using k by (rule less_imp_le [OF less_trans]) simp
  then have "(of_int (numeral k) :: rat) \<le> of_int (2 ^ 64)"
    by (simp only: of_int_le_iff)
  then have "to_float (numeral k) = Finite (numeral k)"
    by (intro to_float_small) simp
  then show ?thesis
    by (simp add: float_of_int_def r)
qed

section \<open>Window contents and the average\<close>

lemma py_sum_scenario: "py_sum [3, 4, 5, 6, 7] = Finite 25"
  by (simp add: py_sum_def round_double_numeral to_float_small)

lemma average_scenario:
  "window m = [3, 4, 5, 6, 7] \<Longrightarrow> get_average_response_time m = Inr (Finite 5)"
  by (simp add: get_average_response_time_def window_def py_sum_scenario float_of_int_numeral
      round_double_numeral to_float_small)

lemma capacity_init: "ApplicationMetrics_init mh now = Inr m \<Longrightarrow> capacity m = nat mh \<and> window m = []"
  by (auto simp: ApplicationMetrics_init_def deque_new_def capacity_def window_def
      split: if_splits sum.splits)

text \<open>
  Claim C2. Take a recorder whose window respects its capacity \<open>N\<close> (a fresh one, a reset
  one, any reachable one). After \<open>M > N\<close> calls of \<^verbatim>\<open>record_request\<close> the window holds
  exactly the last \<open>N\<close> durations, in call order: the oldest entries were evicted first. In
  particular, with capacity 5 and the durations 1, 2, ..., 7 the window ends as
  \<open>[3, 4, 5, 6, 7]\<close> and \<^verbatim>\<open>get_average_response_time()\<close> returns 5.0.
\<close>

theorem window_keeps_last:
  assumes "length (window m0) \<le> capacity m0" and "capacity m0 < length reqs"
  shows "window (record_all m0 reqs)
           = drop (length reqs - capacity m0) (map req_duration reqs) \<and>
         (capacity m0 = 5 \<and> map req_duration reqs = [1, 2, 3, 4, 5, 6, 7] \<longrightarrow>
            window (record_all m0 reqs) = [3, 4, 5, 6, 7] \<and>
            get_average_response_time (record_all m0 reqs) = Inr (Finite 5))"
proof -
  let ?T = "window m0 @ map req_duration reqs"
  have "window (record_all m0 reqs) = drop (length ?T - capacity m0) ?T"
    using assms(1) by (rule window_record_all)
  also have "\<dots> = drop (length reqs - capacity m0) (map req_duration reqs)"
    using assms by simp
  finally have main: "window (record_all m0 reqs)
      = drop (length reqs - capacity m0) (map req_duration reqs)" .
  have scenario: "window (record_all m0 reqs) = [3, 4, 5, 6, 7] \<and>
        get_average_response_time (record_all m0 reqs) = Inr (Finite 5)"
    if c: "capacity m0 = 5" and d: "map req_duration reqs = [1, 2, 3, 4, 5, 6, 7]"
  proof -
    have "length (map req_duration reqs) = 7" by (simp only: d) simp
    then have "length reqs = 7" by simp
    then have "window (record_all m0 reqs) = [3, 4, 5, 6, 7]"
      by (simp add: main c d)
    then show ?thesis
      using average_scenario by blast
  qed
  show ?thesis
  proof (intro conjI impI)
    show "window (record_all m0 reqs)
      = drop (length reqs - capacity m0) (map req_duration reqs)"
      by (rule main)
  next
    assume "capacity m0 = 5 \<and> map req_duration reqs = [1, 2, 3, 4, 5, 6, 7]"
    then show "window (record_all m0 reqs) = [3, 4, 5, 6, 7]"
      and "get_average_response_time (record_all m0 reqs) = Inr (Finite 5)"
      using scenario by simp_all
  qed
qed

theorem window_keeps_last_witness:
  "\<not> isl (ApplicationMetrics_init 5 0) \<and>
   (let m0 = projr (ApplicationMetrics_init 5 0); reqs = map plain [1, 2, 3, 4, 5, 6, 7]
    in length (window m0) \<le> capacity m0 \<and> capacity m0 < length reqs \<and>
       window (record_all m0 reqs) = [3, 4, 5, 6, 7] \<and>
       get_average_response_time (record_all m0 reqs) = Inr (Finite 5))"
proof -
  let ?m0 = "projr (ApplicationMetrics_init 5 0)"
  let ?reqs = "map plain [1, 2, 3, 4, 5, 6, 7]"
  have i: "ApplicationMetrics_init 5 0 = Inr ?m0"
    by (simp add: ApplicationMetrics_init_def deque_new_def)
  have c: "capacity ?m0 = 5" and w: "window ?m0 = []"
    using capacity_init [OF i] by simp_all
  have h1: "length (window ?m0) \<le> capacity ?m0" and h2: "capacity ?m0 < length ?reqs"
    by (simp_all add: c w)
  have d: "map req_duration ?reqs = [1, 2, 3, 4, 5, 6, 7]"
    by (simp add: plain_def)
  from window_keeps_last [OF h1 h2] c d
  have win: "window (record_all ?m0 ?reqs) = [3, 4, 5, 6, 7]"
    and avg: "get_average_response_time (record_all ?m0 ?reqs) = Inr (Finite 5)"
    by blast+
  have ni: "\<not> isl (ApplicationMetrics_init 5 0)"
    by (simp add: ApplicationMetrics_init_def deque_new_def)
  show ?thesis
    unfolding Let_def by (intro conjI ni h1 h2 win avg)
qed

text \<open>
  Every state reached from a fresh recorder by \<^verbatim>\<open>record_request\<close> and \<^verbatim>\<open>reset\<close> calls keeps its
  window within its capacity, which is below \<open>2\<^sup>6\<^sup>3\<close>: the hypotheses on the window made above
  and below hold in all of them.
\<close>

lemma window_bounded_record_one:
  "length (window m) \<le> capacity m \<Longrightarrow> length (window (record_one m r)) \<le> capacity (record_one m r)"
  by (simp add: window_record_one capacity_record_one)

lemma window_capacity_reset: "window (reset m now) = [] \<and> capacity (reset m now) = capacity m"
  by (simp add: window_def capacity_def reset_def deque_clear_def)

lemma capacity_run_calls: "capacity (run_calls m cs) = capacity m"
  by (induction m cs rule: run_calls.induct)
    (simp_all add: capacity_record_one window_capacity_reset)

lemma window_bounded_run_calls:
  "length (window m) \<le> capacity m \<Longrightarrow> length (window (run_calls m cs)) \<le> capacity (run_calls m cs)"
  by (induction m cs rule: run_calls.induct)
    (simp_all add: window_bounded_record_one window_capacity_reset)

lemma reachable_window:
  assumes "ApplicationMetrics_init mh now = Inr m0"
  shows "length (window (run_calls m0 cs)) \<le> capacity (run_calls m0 cs)"
    and "length (window (run_calls m0 cs)) < 2 ^ 63"
proof -
  have c: "capacity m0 = nat mh" and w: "window m0 = []"
    using capacity_init [OF assms] by simp_all
  have "mh < 2 ^ 63"
    using assms by (auto simp: ApplicationMetrics_init_def deque_new_def split: if_splits)
  then have "capacity m0 < 2 ^ 63"
    by (simp add: c nat_less_iff)
  moreover show "length (window (run_calls m0 cs)) \<le> capacity (run_calls m0 cs)"
    by (rule window_bounded_run_calls) (simp add: w)
  ultimately show "length (window (run_calls m0 cs)) < 2 ^ 63"
    by (simp add: capacity_run_calls)
qed

section \<open>Percentiles\<close>

lemma pow2_numeral_less: "pow2 1023 < 2 ^ 1024"
proof -
  have "pow2 1023 = (2::rat) ^ 1023" by (simp only: pow2_def) simp
  also have "\<dots> < 2 ^ 1024" by (rule power_strict_increasing) simp_all
  finally show ?thesis .
qed

lemma to_float_le_pow2:
  assumes "0 \<le> y" and "y \<le> pow2 k" and "k \<le> 1023"
  shows "to_float y = Finite y"
proof -
  have "y \<le> pow2 1023" using assms(2,3) pow2_mono [of k 1023] by linarith
  then have "\<bar>y\<bar> < 2 ^ 1024" using assms(1) pow2_numeral_less by simp
  then show ?thesis by (rule to_float_Finite)
qed

lemma percentile_index_ok:
  assumes "0 \<le> p" and "p \<le> 2 ^ 960" and "n < 2 ^ 63"
  shows "percentile_index n p = Inr (spec_index n p)" and "0 \<le> spec_index n p"
proof -
  let ?f = "round_double (of_int p / 100)"
  let ?nf = "round_double (of_nat n)"
  let ?y = "round_double (?nf * ?f)"
  have q0: "(0::rat) \<le> of_int p / 100" using assms(1) by simp
  have "(of_int p :: rat) \<le> of_int (2 ^ 960)" using assms(2) by (simp only: of_int_le_iff)
  then have "(of_int p :: rat) / 100 \<le> pow2 960"
    using q0 by (simp add: pow2_def)
  then have f1: "?f \<le> pow2 960" by (rule round_double_le_pow2) simp
  have f0: "0 \<le> ?f" using q0 by (rule round_double_nonneg)
  have tf: "to_float ?f = Finite ?f" using f0 f1 by (rule to_float_le_pow2) simp
  have "(of_nat n :: rat) \<le> of_nat (2 ^ 63)" using assms(3) by (intro of_nat_mono) simp
  then have "(of_nat n :: rat) \<le> pow2 63" by (simp add: pow2_def)
  then have n1: "?nf \<le> pow2 63" by (rule round_double_le_pow2) simp
  have n0: "0 \<le> ?nf" by (rule round_double_nonneg) simp
  have tn: "to_float ?nf = Finite ?nf" using n0 n1 by (rule to_float_le_pow2) simp
  have "?nf * ?f \<le> pow2 63 * pow2 960"
    using n0 n1 f0 f1 by (intro mult_mono) simp_all
  then have "?nf * ?f \<le> pow2 1023" by (simp add: pow2_add [symmetric])
  then have y1: "?y \<le> pow2 1023" by (rule round_double_le_pow2) simp
  have y0: "0 \<le> ?y" using n0 f0 by (intro round_double_nonneg) (rule mult_nonneg_nonneg)
  have ty: "to_float ?y = Finite ?y" using y0 y1 by (rule to_float_le_pow2) simp
  show "percentile_index n p = Inr (spec_index n p)"
    using y0 by (simp add: percentile_index_def int_truediv_def float_of_int_def float_mul_def
        tf tn ty py_int_def spec_index_def)
  show "0 \<le> spec_index n p"
    using y0 by (simp add: spec_index_def)
qed

lemma spec_index_mono:
  assumes "0 \<le> p1" and "p1 \<le> p2"
  shows "spec_index n p1 \<le> spec_index n p2"
proof -
  have "round_double (of_int p1 / 100) \<le> round_double (of_int p2 / 100)"
    using assms by (intro round_double_mono) (simp_all add: divide_right_mono)
  moreover have "0 \<le> round_double (of_int p1 / 100)"
    using assms(1) by (intro round_double_nonneg) simp
  moreover have "0 \<le> round_double (of_nat n)"
    by (intro round_double_nonneg) simp
  ultimately have "0 \<le> round_double (of_nat n) * round_double (of_int p1 / 100)"
    and "round_double (of_nat n) * round_double (of_int p1 / 100)
           \<le> round_double (of_nat n) * round_double (of_int p2 / 100)"
    by (simp_all add: mult_left_mono)
  then have "round_double (round_double (of_nat n) * round_double (of_int p1 / 100))
      \<le> round_double (round_double (of_nat n) * round_double (of_int p2 / 100))"
    by (rule round_double_mono)
  then show ?thesis
    unfolding spec_index_def by (rule floor_mono)
qed

lemma get_percentile_nonempty:
  assumes "0 \<le> p" and "p \<le> 2 ^ 960" and "length (window m) < 2 ^ 63" and "window m \<noteq> []"
  shows "get_percentile m p
           = (Inr (sort (window m) ! nat (min (spec_index (length (window m)) p)
                                                (int (length (window m)) - 1))), m)"
    and "nat (min (spec_index (length (window m)) p) (int (length (window m)) - 1))
           < length (window m)"
proof -
  let ?n = "length (window m)"
  have n: "0 < ?n" using assms(4) by simp
  have i: "percentile_index ?n p = Inr (spec_index ?n p)" and i0: "0 \<le> spec_index ?n p"
    using assms(1-3) by (rule percentile_index_ok)+
  define j where "j = min (spec_index ?n p) (int ?n - 1)"
  have j: "0 \<le> j" "j < int ?n" using i0 n by (simp_all add: j_def)
  then have "py_getitem (sort (window m)) j = Inr (sort (window m) ! nat j)"
    by (simp add: py_getitem_def Let_def)
  then have "get_percentile m p = (Inr (sort (window m) ! nat j), m)"
    using assms(4) i by (simp add: get_percentile_def window_def Let_def j_def)
  then show "get_percentile m p
           = (Inr (sort (window m) ! nat (min (spec_index ?n p) (int ?n - 1))), m)"
    by (simp only: j_def)
  have "nat j < ?n" using j by linarith
  then show "nat (min (spec_index ?n p) (int ?n - 1)) < ?n"
    by (simp only: j_def)
qed

lemma spec_index_5_50: "spec_index 5 50 = 2"
  by code_simp

lemma init_1000: "ApplicationMetrics_init 1000 0 = Inr (projr (ApplicationMetrics_init 1000 0))"
  by (simp add: ApplicationMetrics_init_def deque_new_def)

lemma req_duration_plain [simp]: "map req_duration (map plain ds) = ds"
  by (induction ds) (simp_all add: plain_def)

lemma window_example_recorder:
  assumes "length reqs \<le> 1000"
  shows "window (example_recorder reqs) = map req_duration reqs"
proof -
  let ?m0 = "projr (ApplicationMetrics_init 1000 0)"
  have c: "capacity ?m0 = nat 1000 \<and> window ?m0 = []"
    using init_1000 by (rule capacity_init)
  then have "window (record_all ?m0 reqs)
      = drop (length (window ?m0 @ map req_duration reqs) - capacity ?m0)
          (window ?m0 @ map req_duration reqs)"
    by (intro window_record_all) simp
  then show ?thesis
    using c assms by (simp add: example_recorder_def)
qed

lemma window_example_plain:
  assumes "length ds \<le> 1000"
  shows "window (example_recorder (map plain ds)) = ds"
proof -
  have "window (example_recorder (map plain ds)) = map req_duration (map plain ds)"
    using assms by (intro window_example_recorder) simp
  then show ?thesis by (simp only: req_duration_plain)
qed

lemma percentile_index_5_neg50: "percentile_index 5 (- 50) = Inr (- 2)"
proof -
  have a: "round_double (- (1 / 2)) = - (1 / 2)" by code_simp
  have b: "round_double (- (5 / 2)) = - (5 / 2)" by code_simp
  have c: "int_truediv (- 50) 100 = Inr (- (1 / 2))"
    by (simp add: int_truediv_def a to_float_small)
  have d: "float_of_int (int 5) = Inr 5"
    by (simp add: float_of_int_numeral)
  have e: "float_mul 5 (- (1 / 2)) = Finite (- (5 / 2))"
    by (simp add: float_mul_def b to_float_small)
  have f: "py_int (- (5 / 2)) = - 2"
    by code_simp
  show ?thesis
    by (simp only: percentile_index_def c d e f sum.case pyfloat.case)
qed

lemma spec_index_5_neg50: "spec_index 5 (- 50) = - 3"
  by code_simp

text \<open>
  Claim C3, amended. For every window (of fewer than \<open>2\<^sup>6\<^sup>3\<close> entries, as every deque
  has) and every percentile \<open>p\<close> with \<open>0 \<le> p \<le> 2\<^sup>9\<^sup>6\<^sup>0\<close>, \<^verbatim>\<open>get_percentile(p)\<close> sorts a
  copy of the window ascending and returns the element at index \<open>floor(n * (p/100))\<close>, the
  product taken in double precision as the source does, clamped to \<open>[0, n - 1]\<close>; it leaves
  the recorder as it was; it returns 0 on an empty window; and on the window
  \<open>[10, 20, 30, 40, 50]\<close>, \<^verbatim>\<open>get_percentile(50)\<close> returns 30. (A negative \<open>p\<close> is left out:
  there the index is negative and Python counts it from the end of the list.)
\<close>

theorem get_percentile_spec:
  assumes "0 \<le> p" and "p \<le> 2 ^ 960" and "length (window m) < 2 ^ 63"
  shows "get_percentile m p = (Inr (spec_percentile (window m) p), m) \<and>
         (window m = [] \<longrightarrow> get_percentile m p = (Inr 0, m)) \<and>
         (window m = [10, 20, 30, 40, 50] \<and> p = 50 \<longrightarrow> get_percentile m p = (Inr 30, m))"
proof -
  have main: "get_percentile m p = (Inr (spec_percentile (window m) p), m)"
  proof (cases "window m = []")
    case True
    then show ?thesis
      by (simp add: get_percentile_def window_def spec_percentile_def)
  next
    case False
    have "0 \<le> spec_index (length (window m)) p"
      using assms by (rule percentile_index_ok)
    then have "max 0 (min (spec_index (length (window m)) p) (int (length (window m)) - 1))
                 = min (spec_index (length (window m)) p) (int (length (window m)) - 1)"
      using False by simp
    then show ?thesis
      using get_percentile_nonempty(1) [OF assms False] False
      by (simp add: spec_percentile_def)
  qed
  moreover have "spec_percentile [] p = 0"
    by (simp add: spec_percentile_def)
  moreover have "spec_percentile [10, 20, 30, 40, 50] 50 = 30"
  proof -
    have len: "length [10, 20, 30, 40, 50 :: rat] = 5" by simp
    show ?thesis
      by (simp only: spec_percentile_def len spec_index_5_50) simp
  qed
  ultimately show ?thesis by auto
qed

theorem get_percentile_spec_witness:
  "(0::int) \<le> 50 \<and> (50::int) \<le> 2 ^ 960 \<and>
   length (window (example_recorder (map plain [10, 20, 30, 40, 50]))) < 2 ^ 63 \<and>
   get_percentile (example_recorder (map plain [10, 20, 30, 40, 50])) 50
     = (Inr 30, example_recorder (map plain [10, 20, 30, 40, 50]))"
proof -
  have w: "window (example_recorder (map plain [10, 20, 30, 40, 50])) = [10, 20, 30, 40, 50]"
    by (rule window_example_plain) simp
  have h: "(0::int) \<le> 50" "(50::int) \<le> 2 ^ 960"
    "length (window (example_recorder (map plain [10, 20, 30, 40, 50]))) < 2 ^ 63"
    unfolding w by simp_all
  from get_percentile_spec [OF h] w
  have "get_percentile (example_recorder (map plain [10, 20, 30, 40, 50])) 50
     = (Inr 30, example_recorder (map plain [10, 20, 30, 40, 50]))"
    by blast
  with h show ?thesis by blast
qed

text \<open>
  Claim C3 as it is written, for every percentile, fails below zero. On the window
  \<open>[10, 20, 30, 40, 50]\<close> and \<open>p = -50\<close> the source computes \<^verbatim>\<open>int(5 * -0.5) = -2\<close> and returns
  \<^verbatim>\<open>sorted_times[-2] = 40\<close>, where the clamped index \<open>floor(-2.5) = -3 \<mapsto> 0\<close> selects 10.
\<close>

theorem get_percentile_negative_counterexample:
  "get_percentile (example_recorder (map plain [10, 20, 30, 40, 50])) (- 50)
     = (Inr 40, example_recorder (map plain [10, 20, 30, 40, 50])) \<and>
   spec_percentile (window (example_recorder (map plain [10, 20, 30, 40, 50]))) (- 50) = 10"
proof -
  have w: "window (example_recorder (map plain [10, 20, 30, 40, 50])) = [10, 20, 30, 40, 50]"
    by (rule window_example_plain) simp
  have len: "length (sort [10, 20, 30, 40, 50 :: rat]) = 5" by simp
  have len': "length [10, 20, 30, 40, 50 :: rat] = 5" by simp
  have g: "py_getitem (sort [10, 20, 30, 40, 50 :: rat]) (min (- 2) (int 5 - 1)) = Inr 40"
    by (simp add: py_getitem_def)
  have "get_percentile (example_recorder (map plain [10, 20, 30, 40, 50])) (- 50)
     = (Inr 40, example_recorder (map plain [10, 20, 30, 40, 50]))"
    using w unfolding get_percentile_def window_def Let_def
    by (simp only: len percentile_index_5_neg50 g sum.case) simp
  moreover have "spec_percentile [10, 20, 30, 40, 50] (- 50) = 10"
    by (simp only: spec_percentile_def len' spec_index_5_neg50) simp
  ultimately show ?thesis
    by (simp only: w) 
qed

text \<open>
  The index is a double-precision product: for 50 entries and \<open>p = 58\<close> it is 28, one below
  the exact \<open>floor(50 * 58 / 100) = 29\<close>, since \<^verbatim>\<open>50 * 0.58\<close> rounds to 28.999999999999996.
\<close>

lemma float_index_below_exact_floor:
  "percentile_index 50 58 = Inr 28 \<and> \<lfloor>(50 * 58 / 100 :: rat)\<rfloor> = 29"
proof -
  have "spec_index 50 58 = 28" by code_simp
  then have "percentile_index 50 58 = Inr 28"
    using percentile_index_ok(1) [of 58 50] by simp
  then show ?thesis by simp
qed

text \<open>
  Claim C4. On the same window (of fewer than \<open>2\<^sup>6\<^sup>3\<close> entries) and for percentiles
  \<open>0 \<le> p1 < p2 \<le> 100\<close>, both calls of \<^verbatim>\<open>get_percentile\<close> return a value and
  \<open>get_percentile(p1) \<le> get_percentile(p2)\<close>.
\<close>

theorem percentile_monotone:
  assumes "0 \<le> p1" and "p1 < p2" and "p2 \<le> 100" and "length (window m) < 2 ^ 63"
  shows "\<exists>v1 v2. fst (get_percentile m p1) = Inr v1 \<and> fst (get_percentile m p2) = Inr v2
           \<and> v1 \<le> v2"
proof (cases "window m = []")
  case True
  then show ?thesis
    by (simp add: get_percentile_def window_def)
next
  case False
  let ?n = "length (window m)"
  let ?j1 = "nat (min (spec_index ?n p1) (int ?n - 1))"
  let ?j2 = "nat (min (spec_index ?n p2) (int ?n - 1))"
  have b1: "p1 \<le> 2 ^ 960" and b2: "p2 \<le> 2 ^ 960" and p2: "0 \<le> p2"
    using assms(1-3) by (simp_all add: order_trans [where y = "100::int"])
  have g1: "get_percentile m p1 = (Inr (sort (window m) ! ?j1), m)"
    using assms(1) b1 assms(4) False by (rule get_percentile_nonempty)
  have g2: "get_percentile m p2 = (Inr (sort (window m) ! ?j2), m)"
    and l2: "?j2 < ?n"
    using p2 b2 assms(4) False by (rule get_percentile_nonempty)+
  have "spec_index ?n p1 \<le> spec_index ?n p2"
    using assms(1,2) by (intro spec_index_mono) simp_all
  then have "?j1 \<le> ?j2" by (intro nat_mono min.mono) simp_all
  then have "sort (window m) ! ?j1 \<le> sort (window m) ! ?j2"
    using l2 by (intro sorted_nth_mono) simp_all
  then show ?thesis
    by (simp add: g1 g2)
qed
theorem percentile_monotone_witness:
  "(0::int) \<le> 50 \<and> (50::int) < 95 \<and> (95::int) \<le> 100 \<and>
   length (window (example_recorder (map plain [10, 20, 30, 40, 50]))) < 2 ^ 63 \<and>
   (\<exists>v1 v2. fst (get_percentile (example_recorder (map plain [10, 20, 30, 40, 50])) 50) = Inr v1 \<and>
            fst (get_percentile (example_recorder (map plain [10, 20, 30, 40, 50])) 95) = Inr v2 \<and> v1 \<le> v2)"
proof -
  have w: "window (example_recorder (map plain [10, 20, 30, 40, 50])) = [10, 20, 30, 40, 50]"
    by (rule window_example_plain) simp
  have h: "(0::int) \<le> 50" "(50::int) < 95" "(95::int) \<le> 100"
    "length (window (example_recorder (map plain [10, 20, 30, 40, 50]))) < 2 ^ 63"
    unfolding w by simp_all
  from percentile_monotone [OF h] h show ?thesis by blast
qed

section \<open>Rates\<close>

lemma counters_ok_init: "ApplicationMetrics_init mh now = Inr m \<Longrightarrow> counters_ok m"
  by (auto simp: ApplicationMetrics_init_def counters_ok_def split: sum.splits)

lemma counters_ok_reset: "counters_ok (reset m now)"
  by (simp add: reset_def counters_ok_def)

lemma counters_ok_record_one: "counters_ok m \<Longrightarrow> counters_ok (record_one m r)"
  by (simp add: record_one_def record_request_def counters_ok_def Let_def)

lemma counters_ok_run_calls: "counters_ok m \<Longrightarrow> counters_ok (run_calls m cs)"
  by (induction m cs rule: run_calls.induct)
    (simp_all add: counters_ok_record_one counters_ok_reset)

lemma round_double_error_bound:
  assumes "\<bar>x\<bar> < pow2 k" and "- 1022 < k"
  shows "\<bar>round_double x - x\<bar> \<le> pow2 (k - 54)"
proof (cases "x = 0")
  case True
  then show ?thesis by (simp add: round_double_def)
next
  case False
  then have "float_exponent x < k" using assms(1) by (rule float_exponent_less)
  then have "max (float_exponent x) (- 1022) - 52 \<le> k - 53"
    using assms(2) by simp
  then have "ulp x \<le> pow2 (k - 53)"
    unfolding ulp_def by (rule pow2_mono)
  moreover have "pow2 (k - 53) = pow2 (k - 54) * 2"
    using pow2_add [of "k - 54" 1] by (simp add: pow2_def)
  ultimately have "ulp x / 2 \<le> pow2 (k - 54)" by simp
  then show ?thesis
    using round_double_error [of x] by linarith
qed

lemma scaled_error:
  fixes q x r :: rat
  assumes "\<bar>q - x\<bar> \<le> 1 / 2 ^ 53" and "\<bar>r - q * 100\<bar> \<le> 1 / 2 ^ 47"
  shows "\<bar>r - 100 * x\<bar> \<le> 3 / 2 ^ 47"
proof -
  have a: "- (1 / 2 ^ 53) \<le> q - x" "q - x \<le> 1 / 2 ^ 53"
    and b: "- (1 / 2 ^ 47) \<le> r - q * 100" "r - q * 100 \<le> 1 / 2 ^ 47"
    using assms by (simp_all only: abs_le_iff) linarith+
  have "r - 100 * x \<le> 3 / 2 ^ 47" "- (r - 100 * x) \<le> 3 / 2 ^ 47"
    using a b by simp_all
  then show ?thesis by (simp only: abs_le_iff)
qed

lemma sum_error:
  fixes e s z xe xs :: rat
  assumes "\<bar>e - 100 * xe\<bar> \<le> 3 / 2 ^ 47" and "\<bar>s - 100 * xs\<bar> \<le> 3 / 2 ^ 47"
    and "xs + xe = 1" and "\<bar>z - (e + s)\<bar> \<le> 1 / 2 ^ 46"
  shows "\<bar>z - 100\<bar> \<le> 1 / 2 ^ 44"
proof -
  have a: "- (3 / 2 ^ 47) \<le> e - 100 * xe" "e - 100 * xe \<le> 3 / 2 ^ 47"
    and b: "- (3 / 2 ^ 47) \<le> s - 100 * xs" "s - 100 * xs \<le> 3 / 2 ^ 47"
    and c: "- (1 / 2 ^ 46) \<le> z - (e + s)" "z - (e + s) \<le> 1 / 2 ^ 46"
    using assms(1,2,4) by (simp_all only: abs_le_iff) linarith+
  have "xs = 1 - xe" using assms(3) by simp
  then have "z - 100 \<le> 1 / 2 ^ 44" "- (z - 100) \<le> 1 / 2 ^ 44"
    using a b c by simp_all
  then show ?thesis by (simp only: abs_le_iff)
qed

lemma rate_bounds:
  assumes "0 \<le> c" and "c \<le> t" and "0 < t"
  shows "\<exists>q r. int_truediv c t = Inr q \<and> float_mul q 100 = Finite r \<and> 0 \<le> r \<and> r \<le> 100 \<and>
           (c = 0 \<longrightarrow> r = 0) \<and>
           \<bar>r - 100 * (of_int c / of_int t)\<bar> \<le> 3 / 2 ^ 47"
proof -
  define x :: rat where "x = of_int c / of_int t"
  define q where "q = round_double x"
  define r where "r = round_double (q * 100)"
  have x: "0 \<le> x" "x \<le> 1"
    using assms by (simp_all add: x_def)
  have xs: "\<bar>x\<bar> < pow2 53" "\<bar>x\<bar> < pow2 1"
    using x by (simp_all add: pow2_def)
  have q: "0 \<le> q" "q \<le> 1"
    using x round_double_nonneg [of x] round_double_le_int [of x 1] xs
    by (simp_all add: q_def)
  have qe: "\<bar>q - x\<bar> \<le> 1 / 2 ^ 53"
    using round_double_error_bound [OF xs(2)] by (simp add: q_def pow2_def)
  have y: "0 \<le> q * 100" "q * 100 \<le> of_int 100"
    using q by simp_all
  have ys: "\<bar>q * 100\<bar> < pow2 53" "\<bar>q * 100\<bar> < pow2 7"
    using q by (simp_all add: pow2_def)
  have r: "0 \<le> r" "r \<le> 100"
    using y round_double_nonneg [of "q * 100"] round_double_le_int [OF y(2) ys(1)]
    by (simp_all add: r_def)
  have re: "\<bar>r - q * 100\<bar> \<le> 1 / 2 ^ 47"
    using round_double_error_bound [OF ys(2)] by (simp add: r_def pow2_def)
  have tq: "to_float q = Finite q" using q by (intro to_float_small) simp
  have tr: "to_float r = Finite r" using r by (intro to_float_small) simp
  have "int_truediv c t = Inr q"
    using assms(3) by (simp add: int_truediv_def q_def x_def tq [unfolded q_def x_def])
  moreover have "float_mul q 100 = Finite r"
    by (simp add: float_mul_def tr [unfolded r_def] r_def)
  moreover have "\<bar>r - 100 * x\<bar> \<le> 3 / 2 ^ 47"
    using qe re by (rule scaled_error)
  moreover have "c = 0 \<longrightarrow> r = 0"
    by (simp add: r_def q_def x_def round_double_def)
  ultimately show ?thesis
    using r unfolding x_def by blast
qed

lemma rates_of_counters:
  assumes "counters_ok m"
  shows "\<exists>e s. get_error_rate m = Inr (Finite e) \<and> get_success_rate m = Inr (Finite s) \<and>
           0 \<le> e \<and> e \<le> 100 \<and> 0 \<le> s \<and> s \<le> 100 \<and>
           (total_requests m = 0 \<longrightarrow> e = 0 \<and> s = 0) \<and>
           (0 < total_requests m \<longrightarrow>
              (\<exists>z. rate_sum m = Inr (Finite z) \<and> \<bar>z - 100\<bar> \<le> 1 / 2 ^ 44))"
proof (cases "total_requests m = 0")
  case True
  then show ?thesis
    by (simp add: get_error_rate_def get_success_rate_def)
next
  case False
  let ?t = "total_requests m"
  from assms False have t: "0 < ?t" and ec: "0 \<le> error_count m" "error_count m \<le> ?t"
    and sc: "0 \<le> success_count m" "success_count m \<le> ?t"
    and tot: "success_count m + error_count m = ?t"
    by (simp_all add: counters_ok_def)
  obtain qe e where e: "int_truediv (error_count m) ?t = Inr qe" "float_mul qe 100 = Finite e"
    "0 \<le> e" "e \<le> 100" "\<bar>e - 100 * (of_int (error_count m) / of_int ?t)\<bar> \<le> 3 / 2 ^ 47"
    using rate_bounds [OF ec t] by blast
  obtain qs s where s: "int_truediv (success_count m) ?t = Inr qs" "float_mul qs 100 = Finite s"
    "0 \<le> s" "s \<le> 100" "\<bar>s - 100 * (of_int (success_count m) / of_int ?t)\<bar> \<le> 3 / 2 ^ 47"
    using rate_bounds [OF sc t] by blast
  have ge: "get_error_rate m = Inr (Finite e)"
    using False e(1,2) by (simp add: get_error_rate_def)
  have gs: "get_success_rate m = Inr (Finite s)"
    using False s(1,2) by (simp add: get_success_rate_def)
  define z where "z = round_double (e + s)"
  have "(of_int (success_count m) :: rat) + of_int (error_count m) = of_int ?t"
    using tot by (simp only: of_int_add [symmetric])
  then have one: "(of_int (success_count m) :: rat) / of_int ?t + of_int (error_count m) / of_int ?t = 1"
    using t by (simp add: add_divide_distrib [symmetric])
  have es: "\<bar>e + s\<bar> < pow2 53" "\<bar>e + s\<bar> < pow2 8" "e + s \<le> of_int 200"
    using e(3,4) s(3,4) by (simp_all add: pow2_def)
  have "\<bar>z - (e + s)\<bar> \<le> 1 / 2 ^ 46"
    using round_double_error_bound [OF es(2)] by (simp add: z_def pow2_def)
  with e(5) s(5) one have zb: "\<bar>z - 100\<bar> \<le> 1 / 2 ^ 44"
    by (intro sum_error)
  have "z \<le> 200" "0 \<le> z"
    using round_double_le_int [OF es(3,1)] round_double_nonneg [of "e + s"] e(3) s(3)
    by (simp_all add: z_def)
  then have "to_float z = Finite z"
    by (intro to_float_small) simp
  then have "rate_sum m = Inr (Finite z)"
    by (simp add: rate_sum_def ge gs z_def)
  with zb ge gs e(3,4) s(3,4) t show ?thesis
    by auto
qed

text \<open>
  Claim C5, amended. In every state reached from a fresh recorder by \<^verbatim>\<open>record_request\<close> and
  \<^verbatim>\<open>reset\<close> calls, \<^verbatim>\<open>get_error_rate()\<close> and \<^verbatim>\<open>get_success_rate()\<close> return finite numbers in
  \<open>[0, 100]\<close>; both return 0 when \<open>total_requests\<close> is 0; and when \<open>total_requests > 0\<close> their
  double-precision sum differs from 100 by at most \<open>2\<^sup>-\<^sup>4\<^sup>4\<close>.
\<close>

theorem rates_bounded:
  assumes "ApplicationMetrics_init mh now = Inr m0"
  shows "\<exists>e s. get_error_rate (run_calls m0 calls) = Inr (Finite e) \<and>
               get_success_rate (run_calls m0 calls) = Inr (Finite s) \<and>
           0 \<le> e \<and> e \<le> 100 \<and> 0 \<le> s \<and> s \<le> 100 \<and>
           (total_requests (run_calls m0 calls) = 0 \<longrightarrow> e = 0 \<and> s = 0) \<and>
           (0 < total_requests (run_calls m0 calls) \<longrightarrow>
              (\<exists>z. rate_sum (run_calls m0 calls) = Inr (Finite z) \<and> \<bar>z - 100\<bar> \<le> 1 / 2 ^ 44))"
proof -
  have "counters_ok (run_calls m0 calls)"
    using assms by (intro counters_ok_run_calls counters_ok_init)
  then show ?thesis by (rule rates_of_counters)
qed

lemma run_calls_record_all: "run_calls m (map RecordRequest rs) = record_all m rs"
  by (induction rs arbitrary: m) simp_all

theorem rates_bounded_witness:
  "ApplicationMetrics_init 1000 0 = Inr (projr (ApplicationMetrics_init 1000 0)) \<and>
   total_requests (run_calls (projr (ApplicationMetrics_init 1000 0))
      [RecordRequest (failed 1), Reset 5, RecordRequest (plain 2)]) = 1 \<and>
   (\<exists>e s z. get_error_rate (run_calls (projr (ApplicationMetrics_init 1000 0))
                 [RecordRequest (failed 1), Reset 5, RecordRequest (plain 2)]) = Inr (Finite e) \<and>
            get_success_rate (run_calls (projr (ApplicationMetrics_init 1000 0))
                 [RecordRequest (failed 1), Reset 5, RecordRequest (plain 2)]) = Inr (Finite s) \<and>
            0 \<le> e \<and> e \<le> 100 \<and> 0 \<le> s \<and> s \<le> 100 \<and>
            rate_sum (run_calls (projr (ApplicationMetrics_init 1000 0))
                 [RecordRequest (failed 1), Reset 5, RecordRequest (plain 2)]) = Inr (Finite z) \<and>
            \<bar>z - 100\<bar> \<le> 1 / 2 ^ 44)"
proof -
  let ?m = "run_calls (projr (ApplicationMetrics_init 1000 0))
      [RecordRequest (failed 1), Reset 5, RecordRequest (plain 2)]"
  have t: "total_requests ?m = 1"
    by (simp add: ApplicationMetrics_init_def deque_new_def record_one_def record_request_def
        reset_def plain_def failed_def truthy_def Let_def)
  from rates_bounded [OF init_1000, of "[RecordRequest (failed 1), Reset 5, RecordRequest (plain 2)]"]
  obtain e s where es: "get_error_rate ?m = Inr (Finite e)" "get_success_rate ?m = Inr (Finite s)"
    "0 \<le> e" "e \<le> 100" "0 \<le> s" "s \<le> 100"
    and z: "0 < total_requests ?m \<longrightarrow> (\<exists>z. rate_sum ?m = Inr (Finite z) \<and> \<bar>z - 100\<bar> \<le> 1 / 2 ^ 44)"
    by blast
  from z t obtain z where "rate_sum ?m = Inr (Finite z)" "\<bar>z - 100\<bar> \<le> 1 / 2 ^ 44"
    by auto
  with es t init_1000 show ?thesis by blast
qed

lemma third_rounded: "round_double (1 / 3) = 6004799503160661 / 18014398509481984"
  by code_simp

lemma third_percent:
  "round_double (6004799503160661 / 18014398509481984 * 100) = 2345624805922133 / 70368744177664"
  by code_simp

lemma two_thirds_rounded: "round_double (2 / 3) = 6004799503160661 / 9007199254740992"
  by code_simp

lemma two_thirds_percent:
  "round_double (6004799503160661 / 9007199254740992 * 100) = 2345624805922133 / 35184372088832"
  by code_simp

lemma percent_sum:
  "round_double (2345624805922133 / 70368744177664 + 2345624805922133 / 35184372088832)
     = 7036874417766399 / 70368744177664"
  by code_simp

text \<open>
  Claim C5 as it is written, the sum being exactly 100, fails in double precision: after one
  failed and two successful requests the rates are 33.33333333333333 and 66.66666666666666,
  and their sum is 99.99999999999999.
\<close>

theorem rate_sum_counterexample:
  "total_requests (example_recorder [failed 1, plain 1, plain 1]) = 3 \<and>
   get_error_rate (example_recorder [failed 1, plain 1, plain 1])
     = Inr (Finite (2345624805922133 / 70368744177664)) \<and>
   get_success_rate (example_recorder [failed 1, plain 1, plain 1])
     = Inr (Finite (2345624805922133 / 35184372088832)) \<and>
   rate_sum (example_recorder [failed 1, plain 1, plain 1])
     = Inr (Finite (7036874417766399 / 70368744177664)) \<and>
   rate_sum (example_recorder [failed 1, plain 1, plain 1]) \<noteq> Inr (Finite 100)"
proof -
  let ?m = "example_recorder [failed 1, plain 1, plain 1]"
  have c: "total_requests ?m = 3" "error_count ?m = 1" "success_count ?m = 2"
    by (simp_all add: example_recorder_def ApplicationMetrics_init_def deque_new_def
        record_one_def record_request_def plain_def failed_def truthy_def Let_def)
  have e1: "int_truediv 1 3 = Inr (6004799503160661 / 18014398509481984)"
    by (simp add: int_truediv_def third_rounded to_float_small)
  have e2: "float_mul (6004799503160661 / 18014398509481984) 100
              = Finite (2345624805922133 / 70368744177664)"
    by (simp only: float_mul_def third_percent) (simp add: to_float_small)
  have s1: "int_truediv 2 3 = Inr (6004799503160661 / 9007199254740992)"
    by (simp add: int_truediv_def two_thirds_rounded to_float_small)
  have s2: "float_mul (6004799503160661 / 9007199254740992) 100
              = Finite (2345624805922133 / 35184372088832)"
    by (simp only: float_mul_def two_thirds_percent) (simp add: to_float_small)
  have ge: "get_error_rate ?m = Inr (Finite (2345624805922133 / 70368744177664))"
    by (simp only: get_error_rate_def c e1 e2 sum.case) simp
  have gs: "get_success_rate ?m = Inr (Finite (2345624805922133 / 35184372088832))"
    by (simp only: get_success_rate_def c s1 s2 sum.case) simp
  have add: "float_add (Finite (2345624805922133 / 70368744177664))
                       (Finite (2345624805922133 / 35184372088832))
               = Finite (7036874417766399 / 70368744177664)"
    by (simp only: float_add.simps percent_sum) (simp add: to_float_small)
  have rs: "rate_sum ?m = Inr (Finite (7036874417766399 / 70368744177664))"
    by (simp only: rate_sum_def ge gs add sum.case)
  have "rate_sum ?m \<noteq> Inr (Finite 100)"
    by (simp only: rs) simp
  with c(1) ge gs rs show ?thesis by blast
qed

section \<open>Evaluating one reading\<close>

lemma evaluate_status_eq:
  "evaluate_status v thr = evaluate_one v (map_of thr ''warning'') (map_of thr ''max'')"
  by (cases v)
    (auto simp: evaluate_status_def evaluate_one_def Let_def split: option.splits)

lemma evaluate_status_cases:
  "evaluate_status v thr \<in> {''healthy'', ''degraded'', ''unhealthy''}"
  by (simp add: evaluate_status_def Let_def)

text \<open>
  Claim C6. For every probe reading and threshold policy, \<^verbatim>\<open>_evaluate_status\<close> follows the
  rule of \<open>evaluate_one\<close>: it returns healthy when the threshold holds neither bound; from a
  composite reading it first takes the \<open>percent\<close> field, 0 when the field is absent; then it
  returns unhealthy if the number exceeds \<open>max\<close>, else degraded if it exceeds \<open>warning\<close>, else
  healthy. The constant reading 85 against \<open>{warning: 70, max: 90}\<close> is degraded.
\<close>

theorem evaluate_status_rule:
  "evaluate_status v thr = evaluate_one v (map_of thr ''warning'') (map_of thr ''max'') \<and>
   (map_of thr ''warning'' = None \<and> map_of thr ''max'' = None \<longrightarrow>
      evaluate_status v thr = ''healthy'') \<and>
   evaluate_status (Composite d) thr
     = evaluate_status (Scalar (case map_of d ''percent'' of None \<Rightarrow> 0 | Some y \<Rightarrow> y)) thr \<and>
   evaluate_status (Scalar x) thr
     = (if (\<exists>b. map_of thr ''max'' = Some b \<and> b < x) then ''unhealthy''
        else if (\<exists>a. map_of thr ''warning'' = Some a \<and> a < x) then ''degraded''
        else ''healthy'') \<and>
   evaluate_status (Scalar 85) cpu_threshold = ''degraded''"
proof (intro conjI impI)
  show "evaluate_status v thr = evaluate_one v (map_of thr ''warning'') (map_of thr ''max'')"
    by (rule evaluate_status_eq)
  show "evaluate_status v thr = ''healthy''"
    if "map_of thr ''warning'' = None \<and> map_of thr ''max'' = None"
    using that by (simp add: evaluate_status_eq evaluate_one_def)
  show "evaluate_status (Composite d) thr
     = evaluate_status (Scalar (case map_of d ''percent'' of None \<Rightarrow> 0 | Some y \<Rightarrow> y)) thr"
    by (simp add: evaluate_status_def)
  show "evaluate_status (Scalar x) thr
     = (if (\<exists>b. map_of thr ''max'' = Some b \<and> b < x) then ''unhealthy''
        else if (\<exists>a. map_of thr ''warning'' = Some a \<and> a < x) then ''degraded''
        else ''healthy'')"
    by (auto simp: evaluate_status_eq evaluate_one_def split: option.splits)
  show "evaluate_status (Scalar 85) cpu_threshold = ''degraded''"
    by (simp add: evaluate_status_def cpu_threshold_def)
qed

theorem evaluate_status_rule_witness:
  "map_of [(''min'', 5 :: rat)] ''warning'' = None \<and> map_of [(''min'', 5 :: rat)] ''max'' = None \<and>
   evaluate_status (Scalar 99) [(''min'', 5)] = ''healthy'' \<and>
   evaluate_status (Composite [(''total'', 16), (''percent'', 97)]) disk_threshold = ''unhealthy''"
proof -
  have h: "map_of [(''min'', 5 :: rat)] ''warning'' = None \<and> map_of [(''min'', 5 :: rat)] ''max'' = None"
    by simp
  have "evaluate_status (Scalar 99) [(''min'', 5)] = ''healthy''"
    using evaluate_status_rule [of "Scalar 99" "[(''min'', 5)]"] h by blast
  moreover have "evaluate_status (Composite [(''total'', 16), (''percent'', 97)]) disk_threshold
      = ''unhealthy''"
    by (simp add: evaluate_status_def disk_threshold_def)
  ultimately show ?thesis using h by blast
qed

section \<open>The loop over the probes\<close>

lemma update_fresh: "k \<notin> fst ` set al \<Longrightarrow> AList.update k v al = al @ [(k, v)]"
  by (induction al) auto

lemma fold_max_le: "(\<forall>x\<in>set xs. x \<le> b) \<Longrightarrow> a \<le> b \<Longrightarrow> fold max xs a \<le> (b::nat)"
  by (induction xs arbitrary: a) simp_all

lemma severity_le: "severity s \<le> 2"
  by (simp add: severity_def)

lemma most_severe_snoc:
  "most_severe (ss @ [s]) =
     (if severity s = 2 then ''unhealthy''
      else if severity s = 1 \<and> most_severe ss \<noteq> ''unhealthy'' then ''degraded''
      else most_severe ss)"
proof -
  have "fold max (map severity ss) 0 \<le> 2"
    by (rule fold_max_le) (simp_all add: severity_le)
  moreover have "severity s \<le> 2" by (rule severity_le)
  ultimately show ?thesis
    by (auto simp: most_severe_def Let_def max_def)
qed

text \<open>One pass through the body: the world it leaves, when it leaves the loop, what it records.\<close>

lemma loop_body_world:
  "snd (loop_body name check res w) = snd (check_func check w)"
  by (auto simp: loop_body_def Let_def split: prod.splits outcome.splits)

lemma loop_body_Inl:
  assumes "fst (loop_body name check res w) = Inl e"
  shows "fst (check_func check w) = Raises (fst e) (snd e)" and "\<not> is_Exception (fst e)"
    and "propagates (fst (check_func check w))"
  using assms
  by (auto simp: loop_body_def propagates_def Let_def split: prod.splits outcome.splits if_splits)

lemma loop_body_Inr:
  assumes "fst (loop_body name check res w) = Inr (check', res')"
  shows "\<not> propagates (fst (check_func check w))"
    and "check_results res'
           = AList.update name (expected_result check (fst (check_func check w)))
               (check_results res)"
  using assms
  by (auto simp: loop_body_def propagates_def expected_result_def Let_def
      split: prod.splits outcome.splits if_splits)

lemma expected_status_cases:
  "res_status (expected_result c out) \<in> {''healthy'', ''degraded'', ''unhealthy'', ''error''}"
  using evaluate_status_cases by (cases out) (auto simp: expected_result_def)

lemma loop_body_overall:
  assumes "fst (loop_body name check res w) = Inr (check', res')"
  shows "overall_status res'
     = (let st = res_status (expected_result check (fst (check_func check w)))
        in if severity st = 2 then ''unhealthy''
           else if severity st = 1 \<and> overall_status res \<noteq> ''unhealthy'' then ''degraded''
           else overall_status res)"
proof (cases "check_func check w")
  case (Pair out w')
  show ?thesis
  proof (cases out)
    case (Raises k msg)
    with Pair assms show ?thesis
      by (auto simp: loop_body_def expected_result_def severity_def Let_def split: if_splits)
  next
    case (Returns v)
    have "evaluate_status v (threshold check) \<in> {''healthy'', ''degraded'', ''unhealthy''}"
      by (rule evaluate_status_cases)
    with Pair Returns assms show ?thesis
      by (auto simp: loop_body_def expected_result_def severity_def Let_def)
  qed
qed

lemma run_loop_abort:
  assumes "fst (loop_body name check res w) = Inl e"
  shows "run_loop ((name, check) # rest) res w
           = (Inl e, (name, check) # rest, snd (check_func check w))"
proof -
  have "loop_body name check res w = (Inl e, snd (check_func check w))"
    using assms loop_body_world [of name check res w] by (cases "loop_body name check res w") simp
  then show ?thesis by simp
qed

lemma run_loop_go:
  assumes "fst (loop_body name check res w) = Inr (check', res')"
  shows "run_loop ((name, check) # rest) res w
           = (fst (run_loop rest res' (snd (check_func check w))),
              (name, check') # fst (snd (run_loop rest res' (snd (check_func check w)))),
              snd (snd (run_loop rest res' (snd (check_func check w)))))"
proof -
  have "loop_body name check res w = (Inr (check', res'), snd (check_func check w))"
    using assms loop_body_world [of name check res w] by (cases "loop_body name check res w") simp
  then show ?thesis by (simp add: case_prod_beta)
qed

lemma probe_outcomes_Cons:
  "probe_outcomes ((name, c) # rest) w =
     ((name, fst (check_func c w)) # fst (probe_outcomes rest (snd (check_func c w))),
      snd (probe_outcomes rest (snd (check_func c w))))"
  by (simp add: case_prod_beta)

lemma probe_outcomes_names: "map fst (fst (probe_outcomes cs w)) = map fst cs"
proof (induction cs arbitrary: w)
  case Nil
  show ?case by simp
next
  case (Cons a cs)
  obtain name c where a: "a = (name, c)" by (cases a)
  show ?case
    unfolding a probe_outcomes_Cons by (simp add: Cons.IH)
qed

lemma all_caught_Cons:
  "all_caught ((name, c) # rest) w
     = (\<not> propagates (fst (check_func c w)) \<and> all_caught rest (snd (check_func c w)))"
  unfolding all_caught_def probe_outcomes_Cons by simp

text \<open>The loop returns exactly when no probe raises outside \<^verbatim>\<open>Exception\<close>.\<close>

lemma run_loop_returns: "(\<exists>r. fst (run_loop cs res w) = Inr r) = all_caught cs w"
proof (induction cs arbitrary: res w)
  case Nil
  show ?case by (simp add: all_caught_def)
next
  case (Cons a cs)
  obtain name check where a: "a = (name, check)" by (cases a)
  show ?case
  proof (cases "fst (loop_body name check res w)")
    case (Inl e)
    from loop_body_Inl(3) [OF Inl] show ?thesis
      unfolding a all_caught_Cons run_loop_abort [OF Inl] by simp
  next
    case (Inr p)
    obtain check' res' where p: "p = (check', res')" by (cases p)
    note b = Inr [unfolded p]
    from loop_body_Inr(1) [OF b] Cons.IH [of res' "snd (check_func check w)"] show ?thesis
      unfolding a all_caught_Cons run_loop_go [OF b] by simp
  qed
qed



lemma run_loop_results:
  assumes "distinct (map fst cs)" and "fst ` set cs \<inter> fst ` set (check_results res) = {}"
    and "fst (run_loop cs res w) = Inr r"
  shows "check_results r = check_results res @ expected_entries cs (fst (probe_outcomes cs w))"
  using assms
proof (induction cs arbitrary: res w)
  case Nil
  then show ?case by (simp add: expected_entries_def)
next
  case (Cons a cs)
  obtain name check where a: "a = (name, check)" by (cases a)
  show ?case
  proof (cases "fst (loop_body name check res w)")
    case (Inl e)
    with Cons.prems(3) show ?thesis
      unfolding a run_loop_abort [OF Inl] by simp
  next
    case (Inr p)
    obtain check' res' where p: "p = (check', res')" by (cases p)
    note b = Inr [unfolded p]
    let ?e = "expected_result check (fst (check_func check w))"
    have fresh: "name \<notin> fst ` set (check_results res)"
      using Cons.prems(2) by (auto simp: a)
    have r1: "check_results res' = check_results res @ [(name, ?e)]"
      by (simp add: loop_body_Inr(2) [OF b] update_fresh [OF fresh])
    have d: "distinct (map fst cs)" and nn: "name \<notin> fst ` set cs"
      using Cons.prems(1) by (auto simp: a)
    have disj: "fst ` set cs \<inter> fst ` set (check_results res') = {}"
      using Cons.prems(2) nn by (auto simp: r1 a)
    from Cons.prems(3) have "fst (run_loop cs res' (snd (check_func check w))) = Inr r"
      unfolding a run_loop_go [OF b] by simp
    from Cons.IH [OF d disj this] show ?thesis
      unfolding a probe_outcomes_Cons by (simp add: r1 expected_entries_def)
  qed
qed

lemma run_loop_most_severe:
  assumes "distinct (map fst cs)" and "fst ` set cs \<inter> fst ` set (check_results res) = {}"
    and "overall_status res = most_severe (statuses res)"
    and "fst (run_loop cs res w) = Inr r"
  shows "overall_status r = most_severe (statuses r)"
  using assms
proof (induction cs arbitrary: res w)
  case Nil
  then show ?case by simp
next
  case (Cons a cs)
  obtain name check where a: "a = (name, check)" by (cases a)
  show ?case
  proof (cases "fst (loop_body name check res w)")
    case (Inl e)
    with Cons.prems(4) show ?thesis
      unfolding a run_loop_abort [OF Inl] by simp
  next
    case (Inr p)
    obtain check' res' where p: "p = (check', res')" by (cases p)
    note b = Inr [unfolded p]
    let ?e = "expected_result check (fst (check_func check w))"
    have fresh: "name \<notin> fst ` set (check_results res)"
      using Cons.prems(2) by (auto simp: a)
    have r1: "check_results res' = check_results res @ [(name, ?e)]"
      by (simp add: loop_body_Inr(2) [OF b] update_fresh [OF fresh])
    have d: "distinct (map fst cs)" and nn: "name \<notin> fst ` set cs"
      using Cons.prems(1) by (auto simp: a)
    have disj: "fst ` set cs \<inter> fst ` set (check_results res') = {}"
      using Cons.prems(2) nn by (auto simp: r1 a)
    have "statuses res' = statuses res @ [res_status ?e]"
      by (simp add: statuses_def r1)
    then have inv: "overall_status res' = most_severe (statuses res')"
      by (simp add: loop_body_overall [OF b] most_severe_snoc Cons.prems(3) Let_def)
    from Cons.prems(4) have "fst (run_loop cs res' (snd (check_func check w))) = Inr r"
      unfolding a run_loop_go [OF b] by simp
    from Cons.IH [OF d disj inv this] show ?thesis .
  qed
qed

lemma run_loop_overall_cases:
  assumes "overall_status res \<in> {''healthy'', ''degraded'', ''unhealthy''}"
    and "fst (run_loop cs res w) = Inr r"
  shows "overall_status r \<in> {''healthy'', ''degraded'', ''unhealthy''}"
  using assms
proof (induction cs arbitrary: res w)
  case Nil
  then show ?case by simp
next
  case (Cons a cs)
  obtain name check where a: "a = (name, check)" by (cases a)
  show ?case
  proof (cases "fst (loop_body name check res w)")
    case (Inl e)
    with Cons.prems(2) show ?thesis
      unfolding a run_loop_abort [OF Inl] by simp
  next
    case (Inr p)
    obtain check' res' where p: "p = (check', res')" by (cases p)
    note b = Inr [unfolded p]
    have inv: "overall_status res' \<in> {''healthy'', ''degraded'', ''unhealthy''}"
      using Cons.prems(1) by (simp add: loop_body_overall [OF b] Let_def)
    from Cons.prems(2) have "fst (run_loop cs res' (snd (check_func check w))) = Inr r"
      unfolding a run_loop_go [OF b] by simp
    from Cons.IH [OF inv this] show ?thesis .
  qed
qed



lemma run_checks_fst:
  "fst (run_checks hc now w)
     = fst (run_loop (checks hc)
             \<lparr>timestamp = now, check_results = [], overall_status = ''healthy''\<rparr> w)"
  and run_checks_world:
  "snd (snd (run_checks hc now w))
     = snd (snd (run_loop (checks hc)
                  \<lparr>timestamp = now, check_results = [], overall_status = ''healthy''\<rparr> w))"
  by (simp_all add: run_checks_def case_prod_beta)

lemma run_checks_returns:
  "(\<exists>r. fst (run_checks hc now w) = Inr r) = all_caught (checks hc) w"
  unfolding run_checks_fst by (rule run_loop_returns)

lemma run_checks_entries:
  assumes "distinct (map fst (checks hc))" and "fst (run_checks hc now w) = Inr r"
  shows "check_results r = expected_entries (checks hc) (fst (probe_outcomes (checks hc) w))"
  using run_loop_results [OF assms(1) _ assms(2) [unfolded run_checks_fst]] by simp

lemma fold_max_start: "a \<le> fold max xs (a::nat)"
proof (induction xs arbitrary: a)
  case Nil
  show ?case by simp
next
  case (Cons y ys)
  have "a \<le> max y a" by simp
  also have "\<dots> \<le> fold max ys (max y a)" by (rule Cons.IH)
  finally show ?case by simp
qed

lemma fold_max_ge: "x \<in> set xs \<Longrightarrow> x \<le> fold max xs (a::nat)"
proof (induction xs arbitrary: a)
  case Nil
  then show ?case by simp
next
  case (Cons y ys)
  show ?case
  proof (cases "x = y")
    case True
    have "y \<le> max y a" by simp
    also have "\<dots> \<le> fold max ys (max y a)" by (rule fold_max_start)
    finally show ?thesis using True by simp
  next
    case False
    with Cons.prems have "x \<in> set ys" by simp
    then show ?thesis by (simp add: Cons.IH)
  qed
qed

lemma fold_max_mem: "fold max xs (a::nat) = a \<or> fold max xs a \<in> set xs"
proof (induction xs arbitrary: a)
  case Nil
  show ?case by simp
next
  case (Cons y ys)
  from Cons.IH [of "max y a"] show ?case
    by (auto simp: max_def split: if_splits)
qed

lemma severity_most_severe: "severity (most_severe ss) = fold max (map severity ss) 0"
proof -
  have "fold max (map severity ss) 0 \<le> 2"
    by (rule fold_max_le) (simp_all add: severity_le)
  then show ?thesis
    by (auto simp: most_severe_def severity_def Let_def)
qed

lemma most_severe_dominates:
  "s \<in> set ss \<Longrightarrow> severity s \<le> severity (most_severe ss)"
  by (simp add: severity_most_severe fold_max_ge)

lemma most_severe_attained:
  assumes "ss \<noteq> []"
  shows "\<exists>s\<in>set ss. severity s = severity (most_severe ss)"
proof -
  let ?k = "fold max (map severity ss) 0"
  from fold_max_mem [of "map severity ss" 0] consider "?k = 0" | "?k \<in> set (map severity ss)"
    by auto
  then show ?thesis
  proof cases
    case 1
    from assms obtain s where s: "s \<in> set ss" by (cases ss) auto
    then have "severity s \<le> ?k" by (simp add: fold_max_ge)
    with 1 s show ?thesis by (auto simp: severity_most_severe)
  next
    case 2
    then show ?thesis by (auto simp: severity_most_severe)
  qed
qed

lemma expected_entries_names:
  "length outs = length cs \<Longrightarrow> map fst (expected_entries cs outs) = map fst cs"
  unfolding expected_entries_def
  by (induction outs cs rule: list_induct2) auto

lemma probe_entries_names:
  "map fst (expected_entries cs (fst (probe_outcomes cs w))) = map fst cs"
proof -
  have "length (fst (probe_outcomes cs w)) = length cs"
    using probe_outcomes_names [of cs w, THEN arg_cong, of length] by simp
  then show ?thesis by (rule expected_entries_names)
qed

lemma probe_statuses_length: "length (probe_statuses cs w) = length cs"
  using probe_entries_names [of cs w, THEN arg_cong, of length]
  by (simp add: probe_statuses_def)


text \<open>The scenarios, evaluated.\<close>

lemma scenario_B_checks: "map fst (checks scenario_B) = [''cpu'', ''disk'']"
  by (simp add: scenario_B_def scenario_A_def add_check_def HealthChecker_init_def)

lemma scenario_B_statuses:
  "probe_statuses (checks scenario_B) w = [''degraded'', ''unhealthy'']"
  by (simp add: scenario_B_def scenario_A_def add_check_def HealthChecker_init_def
      probe_statuses_def expected_entries_def expected_result_def constant_probe_def
      evaluate_status_def cpu_threshold_def disk_threshold_def Let_def)

lemma scenario_B_caught: "all_caught (checks scenario_B) w"
  by (simp add: scenario_B_def scenario_A_def add_check_def HealthChecker_init_def
      all_caught_def propagates_def constant_probe_def)

lemma scenario_B_run:
  "\<exists>r. fst (run_checks scenario_B now w) = Inr r \<and>
       statuses r = [''degraded'', ''unhealthy''] \<and> overall_status r = ''unhealthy''"
  by (simp add: scenario_B_def scenario_A_def add_check_def HealthChecker_init_def
      run_checks_def loop_body_def constant_probe_def evaluate_status_def cpu_threshold_def
      disk_threshold_def statuses_def Let_def)

lemma scenario_A_run:
  "\<exists>r. fst (run_checks scenario_A now w) = Inr r \<and>
       statuses r = [''degraded''] \<and> overall_status r = ''degraded''"
  by (simp add: scenario_A_def add_check_def HealthChecker_init_def
      run_checks_def loop_body_def constant_probe_def evaluate_status_def cpu_threshold_def
      statuses_def Let_def)






lemma scenario_all_fail_caught: "all_caught (checks scenario_all_fail) w"
  by (simp add: scenario_all_fail_def add_check_def HealthChecker_init_def
      all_caught_def propagates_def failing_probe_def is_Exception_def)

section \<open>Folding the statuses\<close>

text \<open>
  Claim C7. For every registry (a dict, so its names are distinct) and every behaviour of its
  probes, \<^verbatim>\<open>run_checks\<close> returns a report when no probe raises outside \<^verbatim>\<open>Exception\<close>, and
  in every report it returns: the entries are those of the registered probes, in registration
  order, and the status of each is the status of that probe (the evaluation of the reading it
  returned against its threshold, error if it raised); the overall status is the most severe
  of the statuses of the registered probes in the order
  \<open>error = unhealthy > degraded > healthy\<close>: no probe's status is more severe, one is as severe
  when a probe is registered, and the overall status is healthy when none is. With the
  degraded \<open>cpu\<close> probe and the unhealthy \<open>disk\<close> probe of the scenarios it is unhealthy.
\<close>

theorem overall_is_most_severe:
  assumes "distinct (map fst (checks hc))"
  shows "(all_caught (checks hc) w \<longrightarrow> (\<exists>r. fst (run_checks hc now w) = Inr r)) \<and>
         (\<forall>r. fst (run_checks hc now w) = Inr r \<longrightarrow>
            map fst (check_results r) = map fst (checks hc) \<and>
            statuses r = probe_statuses (checks hc) w \<and>
            overall_status r = most_severe (probe_statuses (checks hc) w) \<and>
            (\<forall>s\<in>set (probe_statuses (checks hc) w).
               severity s \<le> severity (overall_status r)) \<and>
            (checks hc \<noteq> [] \<longrightarrow>
               (\<exists>s\<in>set (probe_statuses (checks hc) w).
                  severity s = severity (overall_status r))) \<and>
            (checks hc = [] \<longrightarrow> overall_status r = ''healthy'')) \<and>
         probe_statuses (checks scenario_B) w = [''degraded'', ''unhealthy''] \<and>
         (\<exists>r. fst (run_checks scenario_B now w) = Inr r \<and>
              statuses r = [''degraded'', ''unhealthy''] \<and> overall_status r = ''unhealthy'')"
proof -
  let ?res0 = "\<lparr>timestamp = now, check_results = [], overall_status = ''healthy''\<rparr>"
  let ?ps = "probe_statuses (checks hc) w"
  have ret: "\<exists>r. fst (run_checks hc now w) = Inr r" if "all_caught (checks hc) w"
    using that by (simp add: run_checks_returns)
  have body: "map fst (check_results r) = map fst (checks hc) \<and>
            statuses r = ?ps \<and>
            overall_status r = most_severe ?ps \<and>
            (\<forall>s\<in>set ?ps. severity s \<le> severity (overall_status r)) \<and>
            (checks hc \<noteq> [] \<longrightarrow> (\<exists>s\<in>set ?ps. severity s = severity (overall_status r))) \<and>
            (checks hc = [] \<longrightarrow> overall_status r = ''healthy'')"
    if r: "fst (run_checks hc now w) = Inr r" for r
  proof -
    have cr: "check_results r
        = expected_entries (checks hc) (fst (probe_outcomes (checks hc) w))"
      using assms r by (rule run_checks_entries)
    have names: "map fst (check_results r) = map fst (checks hc)"
      by (simp only: cr probe_entries_names)
    have st: "statuses r = ?ps"
      by (simp add: statuses_def probe_statuses_def cr)
    have "overall_status ?res0 = most_severe (statuses ?res0)"
      by (simp add: statuses_def most_severe_def)
    from run_loop_most_severe [OF assms _ this r [unfolded run_checks_fst]]
    have "overall_status r = most_severe (statuses r)" by simp
    then have ms: "overall_status r = most_severe ?ps"
      by (simp only: st)
    have dom: "\<forall>s\<in>set ?ps. severity s \<le> severity (overall_status r)"
      by (simp add: ms most_severe_dominates)
    have att: "\<exists>s\<in>set ?ps. severity s = severity (overall_status r)" if "checks hc \<noteq> []"
    proof -
      from that probe_statuses_length [of "checks hc" w] have "?ps \<noteq> []" by auto
      then show ?thesis
        unfolding ms by (rule most_severe_attained)
    qed
    have emp: "overall_status r = ''healthy''" if "checks hc = []"
      using that ms by (simp add: probe_statuses_def expected_entries_def most_severe_def)
    show ?thesis
      using names st ms dom att emp by blast
  qed
  show ?thesis
    using ret body scenario_B_statuses [of w] scenario_B_run [of now w] by blast
qed

theorem overall_is_most_severe_witness:
  "distinct (map fst (checks (scenario_B :: unit HealthChecker))) \<and>
   all_caught (checks (scenario_B :: unit HealthChecker)) () \<and>
   (\<exists>r. fst (run_checks scenario_B 0 ()) = Inr r \<and>
        map fst (check_results r) = [''cpu'', ''disk''] \<and>
        statuses r = [''degraded'', ''unhealthy''] \<and>
        overall_status r = ''unhealthy'' \<and>
        overall_status r = most_severe [''degraded'', ''unhealthy''])"
proof -
  have d: "distinct (map fst (checks (scenario_B :: unit HealthChecker)))"
    by (simp add: scenario_B_checks)
  have c: "all_caught (checks (scenario_B :: unit HealthChecker)) ()"
    by (rule scenario_B_caught)
  note t = overall_is_most_severe [OF d, of "()" 0]
  from t c obtain r where r: "fst (run_checks scenario_B 0 ()) = Inr r"
    by blast
  from t r have n: "map fst (check_results r) = map fst (checks (scenario_B :: unit HealthChecker))"
    and s: "statuses r = probe_statuses (checks scenario_B) ()"
    and o: "overall_status r = most_severe (probe_statuses (checks scenario_B) ())"
    by blast+
  from t have p: "probe_statuses (checks (scenario_B :: unit HealthChecker)) ()
      = [''degraded'', ''unhealthy'']"
    by blast
  have n': "map fst (check_results r) = [''cpu'', ''disk'']"
    using n by (simp only: scenario_B_checks)
  have s': "statuses r = [''degraded'', ''unhealthy'']"
    using s by (simp only: p)
  have o': "overall_status r = most_severe [''degraded'', ''unhealthy'']"
    using o by (simp only: p)
  then have "overall_status r = ''unhealthy''"
    by (simp add: most_severe_def severity_def)
  with d c r n' s' o' show ?thesis
    by (intro conjI exI [of _ r])
qed




text \<open>
  Claim C10. For every registry and every outcome of its probes, also when every probe
  raises, \<^verbatim>\<open>run_checks\<close> returns a report unless a probe raises outside \<^verbatim>\<open>Exception\<close>, and the
  overall status of every report it returns, which is what \<^verbatim>\<open>get_health_status\<close> returns
  then, is one of healthy, degraded and unhealthy, never error.
\<close>

theorem overall_status_never_error:
  "(all_caught (checks hc) w \<longrightarrow> (\<exists>r. fst (run_checks hc now w) = Inr r)) \<and>
   (\<forall>r. fst (run_checks hc now w) = Inr r \<longrightarrow>
      overall_status r \<in> {''healthy'', ''degraded'', ''unhealthy''} \<and>
      overall_status r \<noteq> ''error'' \<and>
      fst (get_health_status hc now w) = Inr (overall_status r)) \<and>
   (\<forall>s. fst (get_health_status hc now w) = Inr s \<longrightarrow>
      s \<in> {''healthy'', ''degraded'', ''unhealthy''} \<and> s \<noteq> ''error'')"
proof -
  have ret: "\<exists>r. fst (run_checks hc now w) = Inr r" if "all_caught (checks hc) w"
    using that by (simp add: run_checks_returns)
  have body: "overall_status r \<in> {''healthy'', ''degraded'', ''unhealthy''} \<and>
      overall_status r \<noteq> ''error'' \<and>
      fst (get_health_status hc now w) = Inr (overall_status r)"
    if r: "fst (run_checks hc now w) = Inr r" for r
  proof -
    have m: "overall_status r \<in> {''healthy'', ''degraded'', ''unhealthy''}"
      by (rule run_loop_overall_cases [OF _ r [unfolded run_checks_fst]]) simp
    then have "overall_status r \<noteq> ''error''"
      by auto
    moreover have "fst (get_health_status hc now w) = Inr (overall_status r)"
      using r by (cases "run_checks hc now w") (simp add: get_health_status_def)
    ultimately show ?thesis using m by blast
  qed
  have ghs: "s \<in> {''healthy'', ''degraded'', ''unhealthy''} \<and> s \<noteq> ''error''"
    if s: "fst (get_health_status hc now w) = Inr s" for s
  proof -
    from s obtain r where r: "fst (run_checks hc now w) = Inr r" and "s = overall_status r"
      by (cases "run_checks hc now w"; cases "fst (run_checks hc now w)")
        (auto simp: get_health_status_def)
    with body [OF r] show ?thesis by simp
  qed
  show ?thesis
    using ret body ghs by blast
qed

theorem overall_status_never_error_witness:
  "all_caught (checks (scenario_all_fail :: unit HealthChecker)) () \<and>
   probe_statuses (checks (scenario_all_fail :: unit HealthChecker)) () = [''error'', ''error''] \<and>
   (\<exists>r. fst (run_checks scenario_all_fail 0 ()) = Inr r \<and>
        overall_status r \<in> {''healthy'', ''degraded'', ''unhealthy''} \<and>
        overall_status r \<noteq> ''error'' \<and>
        fst (get_health_status scenario_all_fail 0 ()) = Inr (overall_status r)) \<and>
   fst (get_health_status scenario_all_fail 0 ()) = Inr ''unhealthy''"
proof -
  have c: "all_caught (checks (scenario_all_fail :: unit HealthChecker)) ()"
    by (rule scenario_all_fail_caught)
  have p: "probe_statuses (checks (scenario_all_fail :: unit HealthChecker)) ()
      = [''error'', ''error'']"
    by (simp add: scenario_all_fail_def add_check_def HealthChecker_init_def
        probe_statuses_def expected_entries_def expected_result_def failing_probe_def)
  note t = overall_status_never_error [of scenario_all_fail "()" 0]
  from t c obtain r where r: "fst (run_checks scenario_all_fail 0 ()) = Inr r"
    by blast
  from t r have m: "overall_status r \<in> {''healthy'', ''degraded'', ''unhealthy''}"
    and ne: "overall_status r \<noteq> ''error''"
    and g: "fst (get_health_status scenario_all_fail 0 ()) = Inr (overall_status r)"
    by blast+
  have "fst (get_health_status scenario_all_fail 0 ()) = Inr ''unhealthy''"
    by (simp add: scenario_all_fail_def add_check_def HealthChecker_init_def
        get_health_status_def run_checks_def loop_body_def failing_probe_def is_Exception_def
        Let_def)
  with c p r m ne g show ?thesis
    by (intro conjI exI [of _ r])
qed

section \<open>A torn summary\<close>

lemma round_double_one: "round_double 1 = 1"
  using round_double_of_int [of 1] by simp

lemma rates_after_one:
  assumes "total_requests m = 1" and "success_count m = 1"
  shows "get_success_rate m = Inr (Finite 100)"
  using assms
  by (simp add: get_success_rate_def int_truediv_def float_mul_def round_double_one
      round_double_numeral to_float_small)

lemma average_of_one:
  assumes "window m = [1]"
  shows "get_average_response_time m = Inr (Finite 1)"
proof -
  have "float_of_int (int (length [1 :: rat])) = Inr 1"
    by (simp add: float_of_int_def round_double_one to_float_small)
  moreover have "py_sum [1] = Finite 1"
    by (simp add: py_sum_def round_double_one to_float_small)
  ultimately show ?thesis
    using assms by (simp add: get_average_response_time_def window_def round_double_one to_float_small)
qed

lemma zero_total_zero_rate: "total_requests m = 0 \<Longrightarrow> get_success_rate m = Inr (Finite 0)"
  by (simp add: get_success_rate_def)

lemma after_one_request:
  "total_requests (run_calls (example_recorder []) [RecordRequest (plain 1)]) = 1"
  "success_count (run_calls (example_recorder []) [RecordRequest (plain 1)]) = 1"
  "window (run_calls (example_recorder []) [RecordRequest (plain 1)]) = [1]"
  "total_requests (example_recorder []) = 0"
  "success_count (example_recorder []) = 0"
  "error_count (example_recorder []) = 0"
  by (simp_all add: example_recorder_def ApplicationMetrics_init_def deque_new_def record_one_def
      record_request_def deque_append_def plain_def truthy_def window_def Let_def)

lemma torn_run:
  "returned_summary (run_schedule two_threads torn_schedule)
     = Some [(TotalRequests, Count 0), (SuccessCount, Count 0), (ErrorCount, Count 0),
             (SuccessRate, read_entry (run_calls (example_recorder []) [RecordRequest (plain 1)]) SuccessRate),
             (ErrorRate, read_entry (run_calls (example_recorder []) [RecordRequest (plain 1)]) ErrorRate),
             (AvgResponseTime, read_entry (run_calls (example_recorder []) [RecordRequest (plain 1)]) AvgResponseTime),
             (P50, read_entry (run_calls (example_recorder []) [RecordRequest (plain 1)]) P50),
             (P95, read_entry (run_calls (example_recorder []) [RecordRequest (plain 1)]) P95),
             (P99, read_entry (run_calls (example_recorder []) [RecordRequest (plain 1)]) P99),
             (RequestsByFormat, read_entry (run_calls (example_recorder []) [RecordRequest (plain 1)]) RequestsByFormat),
             (RequestsByIntent, read_entry (run_calls (example_recorder []) [RecordRequest (plain 1)]) RequestsByIntent)]"
proof -
  define m1 where "m1 = run_calls (example_recorder []) [RecordRequest (plain 1)]"
  have "returned_summary (run_schedule two_threads torn_schedule)
     = Some [(TotalRequests, Count (total_requests (example_recorder []))),
             (SuccessCount, Count (success_count (example_recorder []))),
             (ErrorCount, Count (error_count (example_recorder []))),
             (SuccessRate, read_entry m1 SuccessRate),
             (ErrorRate, read_entry m1 ErrorRate),
             (AvgResponseTime, read_entry m1 AvgResponseTime),
             (P50, read_entry m1 P50), (P95, read_entry m1 P95), (P99, read_entry m1 P99),
             (RequestsByFormat, read_entry m1 RequestsByFormat),
             (RequestsByIntent, read_entry m1 RequestsByIntent)]"
    unfolding m1_def [symmetric]
    apply (simp add: two_threads_def torn_schedule_def step_def advance_def returned_summary_def
        get_summary_stmts_def summary_keys_def record_request_stmts_def Let_def
        del: read_entry.simps run_calls.simps)
    apply (simp add: m1_def)
    done
  then show ?thesis
    by (simp add: after_one_request m1_def del: run_calls.simps)
qed

text \<open>
  Claim C9 asks that \<^verbatim>\<open>get_summary\<close> computes its whole view under one acquisition of the
  recorder's lock, so that no concurrent \<^verbatim>\<open>record_request\<close> makes the counters and the window
  disagree within one summary. The source's \<^verbatim>\<open>get_summary\<close> never acquires the lock. With one
  thread in \<^verbatim>\<open>get_summary\<close> on a fresh recorder and another in \<^verbatim>\<open>record_request(1.0)\<close>, the
  schedule that lets the first read the three counters, then runs the second to its end,
  then finishes the first, returns a summary with \<open>total_requests = 0\<close> beside
  \<open>success_rate = 100\<close> and \<open>avg_response_time = 1\<close>: the summary of no state of the recorder.
\<close>

theorem get_summary_torn:
  "Acquire \<notin> set get_summary_stmts \<and>
   (\<exists>v. returned_summary (run_schedule two_threads torn_schedule) = Some v \<and>
        map fst v = summary_keys \<and>
        map_of v TotalRequests = Some (Count 0) \<and>
        map_of v SuccessRate = Some (Rate (Inr (Finite 100))) \<and>
        map_of v AvgResponseTime = Some (Rate (Inr (Finite 1))) \<and>
        (\<forall>m. get_summary m \<noteq> v))"
proof -
  let ?m1 = "run_calls (example_recorder []) [RecordRequest (plain 1)]"
  let ?v = "[(TotalRequests, Count 0), (SuccessCount, Count 0), (ErrorCount, Count 0),
             (SuccessRate, read_entry ?m1 SuccessRate), (ErrorRate, read_entry ?m1 ErrorRate),
             (AvgResponseTime, read_entry ?m1 AvgResponseTime),
             (P50, read_entry ?m1 P50), (P95, read_entry ?m1 P95), (P99, read_entry ?m1 P99),
             (RequestsByFormat, read_entry ?m1 RequestsByFormat),
             (RequestsByIntent, read_entry ?m1 RequestsByIntent)]"
  have sr: "get_success_rate ?m1 = Inr (Finite 100)"
    by (rule rates_after_one) (rule after_one_request)+
  have av: "get_average_response_time ?m1 = Inr (Finite 1)"
    by (rule average_of_one) (rule after_one_request)
  have a: "Acquire \<notin> set get_summary_stmts"
    by (auto simp: get_summary_stmts_def)
  have k: "map fst ?v = summary_keys"
    by (simp add: summary_keys_def)
  have t: "map_of ?v TotalRequests = Some (Count 0)"
    by simp
  have s: "map_of ?v SuccessRate = Some (Rate (Inr (Finite 100)))"
    by (simp add: sr del: run_calls.simps)
  have g: "map_of ?v AvgResponseTime = Some (Rate (Inr (Finite 1)))"
    by (simp add: av del: run_calls.simps)
  have n: "get_summary m \<noteq> ?v" for m
  proof
    assume eq: "get_summary m = ?v"
    then have "map_of (get_summary m) TotalRequests = map_of ?v TotalRequests"
      and "map_of (get_summary m) SuccessRate = map_of ?v SuccessRate"
      by simp_all
    then have "total_requests m = 0" and "get_success_rate m = Inr (Finite 100)"
      by (simp_all add: get_summary_def summary_keys_def sr del: run_calls.simps)
    then show False
      using zero_total_zero_rate [of m] by simp
  qed
  from torn_run a k t s g n show ?thesis
    by blast
qed

text \<open>
  With the reads inside the lock the summary is never torn: whatever the schedule, a summary
  that is returned is the summary of one state of the recorder.
\<close>

lemma safe_initial: "safe r (locked_threads r)"
  by (simp add: safe_def locked_threads_def reader_ok_def writer_ok_def record_request_stmts_def)

lemma step_index: "step s i = Some s' \<Longrightarrow> i < length (threads s)"
  by (simp add: step_def split: if_splits)

lemma reader_step:
  assumes "threads s = [t0, t1]" and "reader_ok s t0" and "writer_ok r s t1"
    and "step s 0 = Some s'"
  shows "safe r s'"
proof -
  from assms(2) consider
      (start) "todo t0 = locked_summary_stmts" "view t0 = []" "lock s \<noteq> Some 0"
    | (reading) k where "k \<le> length summary_keys"
        "todo t0 = map Read (drop k summary_keys) @ [Release]"
        "view t0 = map (\<lambda>e. (e, read_entry (shared s) e)) (take k summary_keys)"
        "lock s = Some 0"
    | (finished) "todo t0 = []"
    unfolding reader_ok_def by blast
  then show ?thesis
  proof cases
    case start
    with assms(1,4) have free: "lock s = None"
      and s': "s' = s\<lparr>threads := [t0\<lparr>todo := map Read summary_keys @ [Release]\<rparr>, t1],
                      lock := Some 0\<rparr>"
      by (auto simp: step_def advance_def locked_summary_stmts_def split: if_splits)
    have "reader_ok s' (t0\<lparr>todo := map Read summary_keys @ [Release]\<rparr>)"
      unfolding reader_ok_def using start(2)
      by (intro disjI2 disjI1 exI [of _ 0]) (simp add: s')
    moreover have "writer_ok r s' t1"
      using assms(3) free by (auto simp: writer_ok_def s')
    ultimately show ?thesis
      by (auto simp: safe_def s')
  next
    case reading
    show ?thesis
    proof (cases "k < length summary_keys")
      case True
      then have d: "drop k summary_keys = summary_keys ! k # drop (Suc k) summary_keys"
        by (simp add: Cons_nth_drop_Suc)
      have t: "take (Suc k) summary_keys = take k summary_keys @ [summary_keys ! k]"
        using True by (simp add: take_Suc_conv_app_nth)
      let ?t0' = "t0\<lparr>todo := map Read (drop (Suc k) summary_keys) @ [Release],
                     view := view t0 @ [(summary_keys ! k, read_entry (shared s) (summary_keys ! k))]\<rparr>"
      from assms(1,4) reading(2) have s': "s' = s\<lparr>threads := [?t0', t1]\<rparr>"
        by (simp add: step_def advance_def d)
      have "reader_ok s' ?t0'"
        unfolding reader_ok_def using True reading(3,4)
        by (intro disjI2 disjI1 exI [of _ "Suc k"]) (simp add: s' t)
      moreover have "writer_ok r s' t1"
        using assms(3) by (simp add: writer_ok_def s')
      ultimately show ?thesis
        by (auto simp: safe_def s')
    next
      case False
      with reading(1) have k: "k = length summary_keys" by simp
      from assms(1,4) reading(2,4) have s': "s' = s\<lparr>threads := [t0\<lparr>todo := []\<rparr>, t1], lock := None\<rparr>"
        by (simp add: step_def advance_def k)
      have "view t0 = get_summary (shared s)"
        using reading(3) by (simp add: k get_summary_def)
      then have "reader_ok s' (t0\<lparr>todo := []\<rparr>)"
        unfolding reader_ok_def by (intro disjI2) (auto simp: s')
      moreover have "writer_ok r s' t1"
        using assms(3) reading(4) by (auto simp: writer_ok_def s')
      ultimately show ?thesis
        by (auto simp: safe_def s')
    qed
  next
    case finished
    with assms(1,4) show ?thesis
      by (simp add: step_def)
  qed
qed

lemma writer_step:
  assumes "threads s = [t0, t1]" and "reader_ok s t0" and "writer_ok r s t1"
    and "step s 1 = Some s'"
  shows "safe r s'"
proof -
  from assms(3) consider
      (start) "todo t1 = [Acquire, Body (RecordRequest r), Release]"
    | (body) "todo t1 = [Body (RecordRequest r), Release]" "lock s = Some 1"
    | (release) "todo t1 = [Release]" "lock s = Some 1"
    | (finished) "todo t1 = []"
    unfolding writer_ok_def by blast
  then show ?thesis
  proof cases
    case start
    with assms(1,4) have free: "lock s = None"
      and s': "s' = s\<lparr>threads := [t0, t1\<lparr>todo := [Body (RecordRequest r), Release]\<rparr>],
                      lock := Some 1\<rparr>"
      by (auto simp: step_def advance_def split: if_splits)
    have "reader_ok s' t0"
      using assms(2) free by (auto simp: reader_ok_def s')
    moreover have "writer_ok r s' (t1\<lparr>todo := [Body (RecordRequest r), Release]\<rparr>)"
      by (simp add: writer_ok_def s')
    ultimately show ?thesis
      by (auto simp: safe_def s')
  next
    case body
    with assms(1,4) have s': "s' = s\<lparr>threads := [t0, t1\<lparr>todo := [Release]\<rparr>],
                      shared := run_calls (shared s) [RecordRequest r]\<rparr>"
      by (auto simp: step_def advance_def split: if_splits)
    have "reader_ok s' t0"
      using assms(2) body(2) by (auto simp: reader_ok_def s')
    moreover have "writer_ok r s' (t1\<lparr>todo := [Release]\<rparr>)"
      using body(2) by (simp add: writer_ok_def s')
    ultimately show ?thesis
      by (auto simp: safe_def s')
  next
    case release
    with assms(1,4) have s': "s' = s\<lparr>threads := [t0, t1\<lparr>todo := []\<rparr>], lock := None\<rparr>"
      by (auto simp: step_def advance_def split: if_splits)
    have "reader_ok s' t0"
      using assms(2) release(2) by (auto simp: reader_ok_def s')
    moreover have "writer_ok r s' (t1\<lparr>todo := []\<rparr>)"
      by (simp add: writer_ok_def s')
    ultimately show ?thesis
      by (auto simp: safe_def s')
  next
    case finished
    with assms(1,4) show ?thesis
      by (simp add: step_def)
  qed
qed

lemma safe_step:
  assumes "safe r s" and "step s i = Some s'"
  shows "safe r s'"
proof -
  from assms(1) obtain t0 t1 where t: "threads s = [t0, t1]" "reader_ok s t0" "writer_ok r s t1"
    unfolding safe_def by blast
  from step_index [OF assms(2)] t(1) have "i = 0 \<or> i = 1"
    by auto
  then show ?thesis
    using reader_step [OF t] writer_step [OF t] assms(2) by auto
qed

lemma safe_run:
  assumes "safe r s" and "run_schedule s sch = Some s'"
  shows "safe r s'"
  using assms
proof (induction sch arbitrary: s)
  case Nil
  then show ?case by simp
next
  case (Cons i sch)
  then obtain s1 where "step s i = Some s1" "run_schedule s1 sch = Some s'"
    by (auto split: option.splits)
  with Cons.IH [of s1] safe_step [OF Cons.prems(1)] show ?case
    by blast
qed

lemma locked_summary_is_snapshot:
  assumes "returned_summary (run_schedule (locked_threads r) sch) = Some v"
  shows "\<exists>m. v = get_summary m"
proof -
  from assms obtain s where run: "run_schedule (locked_threads r) sch = Some s"
    and fin: "todo (threads s ! 0) = []" and v: "v = view (threads s ! 0)"
    by (auto simp: returned_summary_def split: option.splits if_splits)
  have "safe r s"
    using safe_initial run by (rule safe_run)
  then obtain t0 t1 where "threads s = [t0, t1]" "reader_ok s t0"
    unfolding safe_def by blast
  with fin v show ?thesis
    by (auto simp: reader_ok_def locked_summary_stmts_def)
qed

end
